theory Spec2Isabelle
  imports Complex_Main "HOL-Library.Word" "HOL-Library.Log_Nat"
begin

section \<open>Binary32 arithmetic\<close>

text \<open>
  The device code of \<^verbatim>\<open>render.cu\<close> computes in C \<^verbatim>\<open>float\<close>. The model carries the value
  of a finite float as a real number, next to the three non-finite values. Every
  arithmetic operation computes the exact real result and rounds it once to binary32
  (24 significant bits, exponents from -126 to 127, gradual underflow, round to nearest
  with ties to even), as IEEE 754 prescribes for \<^verbatim>\<open>+ - * /\<close> and for the conversion of an
  integer.

  Two things are left out. The sign of a zero is not kept: it only shows in a division
  by zero, and the divisors of the program are \<^verbatim>\<open>x0 = 0.25\<close>, \<^verbatim>\<open>bsize = 32\<close> and
  \<^verbatim>\<open>a1 - a2\<close>; a division by zero is modelled as a division by \<^verbatim>\<open>+0\<close>. Each operator of
  the source rounds on its own: a multiplication and an addition are not contracted
  into one fused operation.
\<close>

datatype f32 = Fin real | PInf | NInf | NaN

definition expo :: "real \<Rightarrow> int" where
  \<comment> \<open>\<open>\<lfloor>log\<^sub>2 \<bar>q\<bar>\<rfloor>\<close> for \<open>q \<noteq> 0\<close>, from the bit length of an integer next to \<open>\<bar>q\<bar>\<close> or \<open>1 / \<bar>q\<bar>\<close>\<close>
  "expo q = (if 1 \<le> \<bar>q\<bar> then bitlen \<lfloor>\<bar>q\<bar>\<rfloor> - 1 else - bitlen (\<lceil>1 / \<bar>q\<bar>\<rceil> - 1))"

definition round_even :: "real \<Rightarrow> int" where
  \<comment> \<open>nearest integer, a tie going to the even one\<close>
  "round_even r = (let f = \<lfloor>r\<rfloor>; d = r - of_int f
                   in if d < 1/2 then f else if 1/2 < d then f + 1
                      else if even f then f else f + 1)"

definition ulp32 :: "real \<Rightarrow> real" where
  \<comment> \<open>the spacing of binary32 numbers around \<open>q\<close>; \<open>2\<^sup>-\<^sup>1\<^sup>4\<^sup>9\<close> in the subnormal range\<close>
  "ulp32 q = 2 powi (max (expo q) (- 126) - 23)"

definition rnd_val :: "real \<Rightarrow> real" where
  "rnd_val q = of_int (round_even (q / ulp32 q)) * ulp32 q"

definition rnd32 :: "real \<Rightarrow> f32" where
  \<comment> \<open>round to nearest even; a result of magnitude \<open>2\<^sup>1\<^sup>2\<^sup>8\<close> or more overflows\<close>
  "rnd32 q = (let r = rnd_val q
              in if 2 ^ 128 \<le> r then PInf else if r \<le> - (2 ^ 128) then NInf else Fin r)"

definition is_f32 :: "real \<Rightarrow> bool" where
  \<comment> \<open>the real number is the value of a finite binary32 number\<close>
  "is_f32 q \<longleftrightarrow> rnd32 q = Fin q"

fun fneg :: "f32 \<Rightarrow> f32" where
  "fneg (Fin a) = Fin (- a)"
| "fneg PInf = NInf"
| "fneg NInf = PInf"
| "fneg NaN = NaN"

fun fadd :: "f32 \<Rightarrow> f32 \<Rightarrow> f32" where
  "fadd (Fin a) (Fin b) = rnd32 (a + b)"
| "fadd NaN _ = NaN"
| "fadd _ NaN = NaN"
| "fadd PInf NInf = NaN"
| "fadd NInf PInf = NaN"
| "fadd PInf _ = PInf"
| "fadd _ PInf = PInf"
| "fadd NInf _ = NInf"
| "fadd _ NInf = NInf"

definition fsub :: "f32 \<Rightarrow> f32 \<Rightarrow> f32" where
  "fsub x y = fadd x (fneg y)"

definition inf_of_sign :: "bool \<Rightarrow> f32" where
  "inf_of_sign negative = (if negative then NInf else PInf)"

fun fmul :: "f32 \<Rightarrow> f32 \<Rightarrow> f32" where
  "fmul (Fin a) (Fin b) = rnd32 (a * b)"
| "fmul NaN _ = NaN"
| "fmul _ NaN = NaN"
| "fmul (Fin a) PInf = (if a = 0 then NaN else inf_of_sign (a < 0))"
| "fmul (Fin a) NInf = (if a = 0 then NaN else inf_of_sign (0 < a))"
| "fmul PInf (Fin b) = (if b = 0 then NaN else inf_of_sign (b < 0))"
| "fmul NInf (Fin b) = (if b = 0 then NaN else inf_of_sign (0 < b))"
| "fmul PInf PInf = PInf"
| "fmul NInf NInf = PInf"
| "fmul PInf NInf = NInf"
| "fmul NInf PInf = NInf"

fun fdiv :: "f32 \<Rightarrow> f32 \<Rightarrow> f32" where
  "fdiv (Fin a) (Fin b) =
     (if b = 0 then (if a = 0 then NaN else inf_of_sign (a < 0)) else rnd32 (a / b))"
| "fdiv NaN _ = NaN"
| "fdiv _ NaN = NaN"
| "fdiv (Fin a) _ = Fin 0"
| "fdiv PInf (Fin b) = inf_of_sign (b < 0)"
| "fdiv NInf (Fin b) = inf_of_sign (0 \<le> b)"
| "fdiv _ _ = NaN"

fun flt :: "f32 \<Rightarrow> f32 \<Rightarrow> bool" where
  "flt (Fin a) (Fin b) \<longleftrightarrow> a < b"
| "flt NaN _ \<longleftrightarrow> False"
| "flt _ NaN \<longleftrightarrow> False"
| "flt NInf NInf \<longleftrightarrow> False"
| "flt NInf _ \<longleftrightarrow> True"
| "flt PInf _ \<longleftrightarrow> False"
| "flt _ PInf \<longleftrightarrow> True"
| "flt _ NInf \<longleftrightarrow> False"

fun fle :: "f32 \<Rightarrow> f32 \<Rightarrow> bool" where
  "fle (Fin a) (Fin b) \<longleftrightarrow> a \<le> b"
| "fle NaN _ \<longleftrightarrow> False"
| "fle _ NaN \<longleftrightarrow> False"
| "fle NInf _ \<longleftrightarrow> True"
| "fle _ PInf \<longleftrightarrow> True"
| "fle PInf _ \<longleftrightarrow> False"
| "fle _ NInf \<longleftrightarrow> False"

definition float_of_int :: "int \<Rightarrow> f32" where
  \<comment> \<open>the conversion of an \<^verbatim>\<open>int\<close> to \<^verbatim>\<open>float\<close>, which rounds above \<open>2\<^sup>2\<^sup>4\<close>\<close>
  "float_of_int k = rnd32 (of_int k)"

definition trunc_real :: "real \<Rightarrow> int" where
  "trunc_real q = (if 0 \<le> q then \<lfloor>q\<rfloor> else \<lceil>q\<rceil>)"

datatype fault = AssertionFailed | UndefinedConversion

definition to_uint8 :: "f32 \<Rightarrow> fault + 8 word" where
  \<comment> \<open>\<^verbatim>\<open>static_cast<std::uint8_t>\<close>: truncation toward zero, undefined when the
      truncated value is not an 8-bit value\<close>
  "to_uint8 v = (case v of
       Fin q \<Rightarrow> if - 1 < q \<and> q < 256 then Inr (word_of_int (trunc_real q))
                else Inl UndefinedConversion
     | _ \<Rightarrow> Inl UndefinedConversion)"

definition cdiv :: "int \<Rightarrow> int \<Rightarrow> int" where
  \<comment> \<open>the \<^verbatim>\<open>/\<close> of C on \<^verbatim>\<open>int\<close>: the quotient truncated toward zero\<close>
  "cdiv a b = sgn a * sgn b * (\<bar>a\<bar> div \<bar>b\<bar>)"

section \<open>The colour transfer function\<close>

text \<open>
  \<^verbatim>\<open>heat_lut\<close> starts with \<^verbatim>\<open>assert(0 <= x && x <= 1)\<close>. The model keeps the assertion: a
  value outside the range, or a NaN, ends the call with \<open>AssertionFailed\<close>. The fields
  \<^verbatim>\<open>r\<close>, \<^verbatim>\<open>g\<close>, \<^verbatim>\<open>b\<close> and \<^verbatim>\<open>a\<close> of \<^verbatim>\<open>rgba8_t\<close> are \<open>r_chan\<close> to \<open>a_chan\<close> here.
\<close>

record rgba8_t =
  r_chan :: "8 word"
  g_chan :: "8 word"
  b_chan :: "8 word"
  a_chan :: "8 word"

definition rgba :: "8 word \<Rightarrow> 8 word \<Rightarrow> 8 word \<Rightarrow> 8 word \<Rightarrow> rgba8_t" where
  "rgba r g b a = \<lparr>r_chan = r, g_chan = g, b_chan = b, a_chan = a\<rparr>"

definition heat_lut :: "f32 \<Rightarrow> fault + rgba8_t" where
  "heat_lut x =
     (if \<not> (fle (Fin 0) x \<and> fle x (Fin 1)) then Inl AssertionFailed
      else let x0 = fdiv (Fin 1) (Fin 4);
               x1 = fdiv (Fin 2) (Fin 4);
               x2 = fdiv (Fin 3) (Fin 4)
           in if flt x x0 then
                map_sum id (\<lambda>g. rgba 0 g 255 255) (to_uint8 (fmul (fdiv x x0) (Fin 255)))
              else if flt x x1 then
                map_sum id (\<lambda>b. rgba 0 255 b 255) (to_uint8 (fmul (fdiv (fsub x1 x) x0) (Fin 255)))
              else if flt x x2 then
                map_sum id (\<lambda>r. rgba r 255 0 255) (to_uint8 (fmul (fdiv (fsub x x1) x0) (Fin 255)))
              else
                map_sum id (\<lambda>b. rgba 0 b 0 255) (to_uint8 (fmul (fdiv (fsub (Fin 1) x) x0) (Fin 255))))"

section \<open>The coordinate mapping\<close>

definition clamp :: "f32 \<Rightarrow> f32 \<Rightarrow> f32 \<Rightarrow> f32 \<Rightarrow> f32 \<Rightarrow> f32" where
  "clamp a a1 a2 lo hi =
     (let percentage = fdiv (fsub a a1) (fsub a1 a2)
      in fadd (fmul percentage (fsub lo hi)) lo)"

section \<open>The escape-time loop\<close>

function mandel_loop :: "f32 \<Rightarrow> f32 \<Rightarrow> int \<Rightarrow> f32 \<Rightarrow> f32 \<Rightarrow> int \<Rightarrow> int" where
  "mandel_loop mx0 my0 n mx my i =
     (if flt (fadd (fmul mx mx) (fmul my my)) (float_of_int (2 * 2)) \<and> i < n then
        let mxtemp = fadd (fsub (fmul mx mx) (fmul my my)) mx0;
            my' = fadd (fmul (fmul (float_of_int 2) mx) my) my0
        in mandel_loop mx0 my0 n mxtemp my' (i + 1)
      else i)"
  by pat_completeness auto
termination
  by (relation "measure (\<lambda>(mx0, my0, n, mx, my, i). nat (n - i))") auto

definition pixel_re :: "int \<Rightarrow> int \<Rightarrow> f32" where
  \<comment> \<open>line 67: \<^verbatim>\<open>mx0 = clamp(x, 0, width, -2.5, 1)\<close>, the \<^verbatim>\<open>int\<close> arguments converted to \<^verbatim>\<open>float\<close>\<close>
  "pixel_re x width =
     clamp (float_of_int x) (float_of_int 0) (float_of_int width) (Fin (- 5 / 2)) (float_of_int 1)"

definition pixel_im :: "int \<Rightarrow> int \<Rightarrow> f32" where
  \<comment> \<open>line 68: \<^verbatim>\<open>my0 = clamp(y, 0, height, -1, 1)\<close>\<close>
  "pixel_im y height =
     clamp (float_of_int y) (float_of_int 0) (float_of_int height) (float_of_int (- 1)) (float_of_int 1)"

definition escape_count :: "int \<Rightarrow> int \<Rightarrow> int \<Rightarrow> int \<Rightarrow> int" where
  \<comment> \<open>lines 66 to 81 of the kernel: the value of \<^verbatim>\<open>i\<close> after the loop, for pixel \<open>(x, y)\<close>\<close>
  "escape_count x y width height =
     (let n = 100;
          mx0 = pixel_re x width;
          my0 = pixel_im y height
      in mandel_loop mx0 my0 n (Fin 0) (Fin 0) 0)"

definition normalized :: "int \<Rightarrow> f32" where
  \<comment> \<open>lines 84 and 85: \<^verbatim>\<open>255 * i / n\<close> is a division of \<^verbatim>\<open>int\<close>s, converted afterwards\<close>
  "normalized i =
     (let n = 100;
          v = float_of_int (cdiv (255 * i) n)
      in clamp v (Fin 0) (Fin 255) (Fin 0) (Fin 1))"

definition pixel_color :: "int \<Rightarrow> int \<Rightarrow> int \<Rightarrow> int \<Rightarrow> fault + rgba8_t" where
  "pixel_color x y width height = heat_lut (normalized (escape_count x y width height))"

section \<open>The recurrence as the specification words it\<close>

text \<open>
  The specification describes the loop by the sequence it walks through: start at
  \<open>(0, 0)\<close>, apply \<open>mx' = mx*mx - my*my + mx0\<close>, \<open>my' = 2*mx*my + my0\<close>, and stop at the first
  point with \<open>mx*mx + my*my \<ge> 4\<close>. These two definitions follow those words; the loop of
  the source is \<open>mandel_loop\<close> above.
\<close>

fun orbit :: "f32 \<Rightarrow> f32 \<Rightarrow> nat \<Rightarrow> f32 \<times> f32" where
  "orbit mx0 my0 0 = (Fin 0, Fin 0)"
| "orbit mx0 my0 (Suc k) =
     (case orbit mx0 my0 k of
        (mx, my) \<Rightarrow> (fadd (fsub (fmul mx mx) (fmul my my)) mx0,
                     fadd (fmul (fmul (Fin 2) mx) my) my0))"

definition norm_sq :: "f32 \<times> f32 \<Rightarrow> f32" where
  "norm_sq p = fadd (fmul (fst p) (fst p)) (fmul (snd p) (snd p))"

section \<open>The kernel\<close>

text \<open>
  A buffer is the map from a byte offset, counted from the buffer's base pointer, to the
  byte stored there. Pointer arithmetic is modulo \<open>2\<^sup>6\<^sup>4\<close>; offsets inside one allocation
  do not wrap, so they are integers here.

  Line 58 of the kernel computes \<^verbatim>\<open>denum\<close> from \<^verbatim>\<open>width\<close> and \<^verbatim>\<open>height\<close> and never reads
  it; the model leaves it out. \<open>kernel_body\<close> is the kernel from its bounds check on, for
  the coordinates \<open>x\<close> and \<open>y\<close> that \<open>mykernel\<close> computes from the indices of the thread. A
  thread returns the buffer it leaves behind, or the fault that stopped it.
\<close>

type_synonym mem = "int \<Rightarrow> 8 word"

record dim3 =
  dim_x :: "32 word"
  dim_y :: "32 word"

definition thread_coord :: "32 word \<Rightarrow> 32 word \<Rightarrow> 32 word \<Rightarrow> int" where
  \<comment> \<open>\<^verbatim>\<open>int x = blockDim.x * blockIdx.x + threadIdx.x\<close>: \<^verbatim>\<open>unsigned\<close> arithmetic, read as \<^verbatim>\<open>int\<close>\<close>
  "thread_coord bdim bidx tidx = sint (bdim * bidx + tidx)"

definition store_pixel :: "mem \<Rightarrow> int \<Rightarrow> rgba8_t \<Rightarrow> mem" where
  \<comment> \<open>the assignment of one \<^verbatim>\<open>uchar4\<close> at a byte offset\<close>
  "store_pixel buffer off c =
     buffer(off := r_chan c, off + 1 := g_chan c, off + 2 := b_chan c, off + 3 := a_chan c)"

definition kernel_body :: "mem \<Rightarrow> int \<Rightarrow> int \<Rightarrow> nat \<Rightarrow> int \<Rightarrow> int \<Rightarrow> fault + mem" where
  \<comment> \<open>lines 63 to 87, for the thread whose coordinates are \<open>x\<close> and \<open>y\<close>\<close>
  "kernel_body buffer width height pitch x y =
     (if x \<ge> width \<or> y \<ge> height then Inr buffer
      else let lineptr = y * int pitch
           in map_sum id (\<lambda>color. store_pixel buffer (lineptr + 4 * x) color)
                (pixel_color x y width height))"

definition mykernel :: "mem \<Rightarrow> int \<Rightarrow> int \<Rightarrow> nat \<Rightarrow> dim3 \<Rightarrow> dim3 \<Rightarrow> dim3 \<Rightarrow> fault + mem" where
  "mykernel buffer width height pitch blockDim blockIdx threadIdx =
     (let x = thread_coord (dim_x blockDim) (dim_x blockIdx) (dim_x threadIdx);
          y = thread_coord (dim_y blockDim) (dim_y blockIdx) (dim_y threadIdx)
      in kernel_body buffer width height pitch x y)"

section \<open>The host side\<close>

text \<open>
  \<^verbatim>\<open>render\<close> calls the CUDA runtime four times. What the runtime answers is not decided
  by the program, so it is an argument of the model: the record \<open>cuda_env\<close> holds the
  result code of each call, the pitch chosen by \<^verbatim>\<open>cudaMallocPitch\<close> and the contents of the
  fresh device buffer. A launch runs the kernel once for every block and thread index
  of the grid; the threads write disjoint pixels, and the model runs them one after the
  other. A fault of a thread (the assertion of \<^verbatim>\<open>heat_lut\<close>) stops the kernel and is
  reported by the next synchronising call, the copy.
\<close>

definition fceil :: "f32 \<Rightarrow> f32" where
  "fceil v = (case v of Fin q \<Rightarrow> Fin (of_int \<lceil>q\<rceil>) | _ \<Rightarrow> v)"

definition int_of_float :: "f32 \<Rightarrow> int" where
  \<comment> \<open>the conversion of a \<^verbatim>\<open>float\<close> to \<^verbatim>\<open>int\<close> truncates; C++ leaves it undefined for a value
      outside \<^verbatim>\<open>int\<close>, where the host instruction gives \<open>- 2\<^sup>3\<^sup>1\<close>\<close>
  "int_of_float v = (case v of
       Fin q \<Rightarrow> if - (2 ^ 31) - 1 < q \<and> q < 2 ^ 31 then trunc_real q else - (2 ^ 31)
     | _ \<Rightarrow> - (2 ^ 31))"

definition grid_dim :: "int \<Rightarrow> int" where
  \<comment> \<open>\<^verbatim>\<open>std::ceil((float)width / bsize)\<close> with \<^verbatim>\<open>bsize = 32\<close>, assigned to an \<^verbatim>\<open>int\<close>\<close>
  "grid_dim width = (let bsize = 32
                     in int_of_float (fceil (fdiv (float_of_int width) (float_of_int bsize))))"

definition threads :: "dim3 \<Rightarrow> dim3 \<Rightarrow> (dim3 \<times> dim3) list" where
  \<comment> \<open>the block and thread indices of a launch, in one of the orders the device may run them\<close>
  "threads dimGrid dimBlock =
     [(\<lparr>dim_x = of_nat bx, dim_y = of_nat by\<rparr>, \<lparr>dim_x = of_nat tx, dim_y = of_nat ty\<rparr>).
        by \<leftarrow> [0 ..< unat (dim_y dimGrid)], bx \<leftarrow> [0 ..< unat (dim_x dimGrid)],
        ty \<leftarrow> [0 ..< unat (dim_y dimBlock)], tx \<leftarrow> [0 ..< unat (dim_x dimBlock)]]"

definition in_launch :: "dim3 \<Rightarrow> dim3 \<Rightarrow> dim3 \<Rightarrow> dim3 \<Rightarrow> bool" where
  \<comment> \<open>the block and thread indices the device hands to the threads of a launch\<close>
  "in_launch dimGrid dimBlock blockIdx threadIdx \<longleftrightarrow>
     dim_x blockIdx < dim_x dimGrid \<and> dim_y blockIdx < dim_y dimGrid \<and>
     dim_x threadIdx < dim_x dimBlock \<and> dim_y threadIdx < dim_y dimBlock"

definition run_thread :: "(mem \<Rightarrow> fault + mem) \<Rightarrow> fault + mem \<Rightarrow> fault + mem" where
  "run_thread k st = (case st of Inl e \<Rightarrow> Inl e | Inr m \<Rightarrow> k m)"

definition launch :: "dim3 \<Rightarrow> dim3 \<Rightarrow> (dim3 \<Rightarrow> dim3 \<Rightarrow> dim3 \<Rightarrow> mem \<Rightarrow> fault + mem) \<Rightarrow> mem \<Rightarrow> fault + mem" where
  "launch dimGrid dimBlock kern m =
     fold (\<lambda>(bi, ti). run_thread (kern dimBlock bi ti)) (threads dimGrid dimBlock) (Inr m)"

definition cudaMemcpy2D :: "mem \<Rightarrow> int \<Rightarrow> mem \<Rightarrow> int \<Rightarrow> nat \<Rightarrow> nat \<Rightarrow> mem" where
  \<comment> \<open>\<open>height\<close> rows of \<open>rowbytes\<close> bytes each, row \<open>r\<close> from offset \<open>r * spitch\<close> to \<open>r * dpitch\<close>\<close>
  "cudaMemcpy2D dst dpitch src spitch rowbytes height =
     fold (\<lambda>r d. fold (\<lambda>c d'. d'(int r * dpitch + int c := src (int r * spitch + int c)))
                       [0 ..< rowbytes] d)
          [0 ..< height] dst"

record cuda_env =
  malloc_rc :: int
  malloc_pitch :: nat
  malloc_mem :: mem
  launch_rc :: int
  memcpy_rc :: int
  free_rc :: int

datatype 'a outcome = Exited string | Returned 'a

definition abortError :: "string \<Rightarrow> 'a outcome" where
  \<comment> \<open>\<^verbatim>\<open>_abortError\<close> logs the message and the error and calls \<^verbatim>\<open>std::exit(1)\<close>\<close>
  "abortError msg = Exited msg"

definition size_t_of_int :: "int \<Rightarrow> 64 word" where
  "size_t_of_int k = word_of_int k"

definition render :: "mem \<Rightarrow> int \<Rightarrow> int \<Rightarrow> int \<Rightarrow> int \<Rightarrow> cuda_env \<Rightarrow> mem outcome" where
  "render hostBuffer width height stride n_iterations env =
     (if malloc_rc env \<noteq> 0 then abortError ''Fail buffer allocation''
      else
        let devBuffer = malloc_mem env;
            pitch = malloc_pitch env;
            bsize = 32;
            w = grid_dim width;
            h = grid_dim height;
            dimBlock = \<lparr>dim_x = word_of_int bsize, dim_y = word_of_int bsize\<rparr>;
            dimGrid = \<lparr>dim_x = word_of_int w, dim_y = word_of_int h\<rparr>;
            dev = launch dimGrid dimBlock (\<lambda>bd bi ti m. mykernel m width height pitch bd bi ti) devBuffer
        in if launch_rc env \<noteq> 0 then abortError ''Computation Error''
           else case dev of
             Inl _ \<Rightarrow> abortError ''Unable to copy buffer back to memory''
           | Inr devBuffer' \<Rightarrow>
               if memcpy_rc env \<noteq> 0 then abortError ''Unable to copy buffer back to memory''
               else
                 let hostBuffer' = cudaMemcpy2D hostBuffer stride devBuffer' (int pitch)
                                     (unat (size_t_of_int width * 4)) (unat (size_t_of_int height))
                 in if free_rc env \<noteq> 0 then abortError ''Unable to free memory''
                    else Returned hostBuffer')"

section \<open>Evaluating the arithmetic\<close>

text \<open>
  On numerals the definitions above are evaluated by rewriting. The unfolded forms below
  have no local binding left, so that rewriting never has to work on a bound variable.
\<close>

declare mandel_loop.simps [simp del]

lemma bitlen_pos: "0 < x \<Longrightarrow> bitlen x = bitlen (x div 2) + 1"
  by (subst compute_bitlen) simp

lemma bitlen_nonpos: "x \<le> 0 \<Longrightarrow> bitlen x = 0"
  by (subst compute_bitlen) simp

lemmas rnd32_eval = rnd32_def rnd_val_def ulp32_def expo_def round_even_def Let_def
  bitlen_pos bitlen_nonpos

lemma rnd32_zero: "rnd32 0 = Fin 0"
  by (simp add: rnd32_eval)

lemma heat_lut_consts:
  "fdiv (Fin 1) (Fin 4) = Fin (1/4)"
  "fdiv (Fin 2) (Fin 4) = Fin (1/2)"
  "fdiv (Fin 3) (Fin 4) = Fin (3/4)"
  by (simp_all add: rnd32_eval)

lemma heat_lut_unfold:
  "heat_lut x =
     (if \<not> (fle (Fin 0) x \<and> fle x (Fin 1)) then Inl AssertionFailed
      else if flt x (Fin (1/4)) then
        map_sum id (\<lambda>g. rgba 0 g 255 255) (to_uint8 (fmul (fdiv x (Fin (1/4))) (Fin 255)))
      else if flt x (Fin (1/2)) then
        map_sum id (\<lambda>b. rgba 0 255 b 255)
          (to_uint8 (fmul (fdiv (fsub (Fin (1/2)) x) (Fin (1/4))) (Fin 255)))
      else if flt x (Fin (3/4)) then
        map_sum id (\<lambda>r. rgba r 255 0 255)
          (to_uint8 (fmul (fdiv (fsub x (Fin (1/2))) (Fin (1/4))) (Fin 255)))
      else
        map_sum id (\<lambda>b. rgba 0 b 0 255)
          (to_uint8 (fmul (fdiv (fsub (Fin 1) x) (Fin (1/4))) (Fin 255))))"
  unfolding heat_lut_def heat_lut_consts Let_def by (rule refl)

lemma clamp_unfold:
  "clamp a a1 a2 lo hi = fadd (fmul (fdiv (fsub a a1) (fsub a1 a2)) (fsub lo hi)) lo"
  unfolding clamp_def Let_def by (rule refl)

lemma normalized_unfold:
  "normalized i = clamp (float_of_int (cdiv (255 * i) 100)) (Fin 0) (Fin 255) (Fin 0) (Fin 1)"
  unfolding normalized_def Let_def by (rule refl)

lemmas f32_eval = rnd32_eval float_of_int_def fsub_def inf_of_sign_def clamp_unfold
  to_uint8_def trunc_real_def cdiv_def heat_lut_unfold normalized_unfold

lemma list_all_weak_cong: "xs = ys \<Longrightarrow> list_all P xs = list_all P ys"
  by simp

lemma count_cases: "0 \<le> i \<Longrightarrow> i \<le> 100 \<Longrightarrow> i \<in> set (0 # 1 # [2..100])"
proof -
  assume "0 \<le> i" "i \<le> 100"
  then have "i = 0 \<or> i = 1 \<or> (2 \<le> i \<and> i \<le> 100)" by linarith
  then show ?thesis by (simp only: list.set set_upto insert_iff atLeastAtMost_iff)
qed

section \<open>Properties of the rounding\<close>

text \<open>
  \<open>expo\<close> is the binary exponent; the rounded value lies within half a unit in the last
  place of the argument; rounding is odd and idempotent, it returns binary32 numbers
  only, and it is exact on integers below \<open>2\<^sup>2\<^sup>4\<close> scaled by a power of two. The difference
  of two distinct binary32 numbers never rounds to zero.
\<close>

lemma bitlen_ge1: "0 < n \<Longrightarrow> 1 \<le> bitlen n"
  using bitlen_eq_zero_iff[of n] bitlen_nonneg[of n] by linarith

lemma expo_bounds_ge1:
  assumes "1 \<le> \<bar>q\<bar>"
  shows "2 powi (expo q) \<le> \<bar>q\<bar> \<and> \<bar>q\<bar> < 2 powi (expo q + 1)"
proof -
  define n where "n = \<lfloor>\<bar>q\<bar>\<rfloor>"
  have n1: "1 \<le> n" using assms unfolding n_def by linarith
  then have npos: "0 < n" by simp
  have e: "expo q = bitlen n - 1" using assms by (simp add: expo_def n_def)
  have b1: "1 \<le> bitlen n" using bitlen_ge1[OF npos] .
  from bitlen_bounds[OF npos] have lo: "2 ^ nat (bitlen n - 1) \<le> n" and hi: "n < 2 ^ nat (bitlen n)"
    by simp_all
  have "(2::real) powi (expo q) = 2 ^ nat (bitlen n - 1)"
    using b1 by (simp add: e power_int_def)
  also have "\<dots> = real_of_int (2 ^ nat (bitlen n - 1))" by simp
  also have "\<dots> \<le> real_of_int n" using lo by (simp only: of_int_le_iff)
  also have "\<dots> \<le> \<bar>q\<bar>" unfolding n_def by linarith
  finally have L: "2 powi (expo q) \<le> \<bar>q\<bar>" .
  have "n + 1 \<le> 2 ^ nat (bitlen n)" using hi by simp
  then have "real_of_int (n + 1) \<le> real_of_int (2 ^ nat (bitlen n))" by (simp only: of_int_le_iff)
  moreover have "\<bar>q\<bar> < real_of_int (n + 1)" unfolding n_def by linarith
  moreover have "(2::real) powi (expo q + 1) = 2 ^ nat (bitlen n)"
    using b1 by (simp add: e power_int_def)
  ultimately have "\<bar>q\<bar> < 2 powi (expo q + 1)" by simp
  with L show ?thesis by simp
qed

lemma expo_bounds_lt1:
  assumes "q \<noteq> 0" "\<bar>q\<bar> < 1"
  shows "2 powi (expo q) \<le> \<bar>q\<bar> \<and> \<bar>q\<bar> < 2 powi (expo q + 1)"
proof -
  define t where "t = 1 / \<bar>q\<bar>"
  define m where "m = \<lceil>t\<rceil> - 1"
  have qpos: "0 < \<bar>q\<bar>" using assms by simp
  have t1: "1 < t" using assms qpos unfolding t_def by (simp add: field_simps)
  have m1: "1 \<le> m" using t1 unfolding m_def by linarith
  then have mpos: "0 < m" by simp
  have mt: "real_of_int m < t" "t \<le> real_of_int m + 1" unfolding m_def by linarith+
  have e: "expo q = - bitlen m" using assms by (simp add: expo_def m_def t_def)
  have b1: "1 \<le> bitlen m" using bitlen_ge1[OF mpos] .
  from bitlen_bounds[OF mpos] have lo: "2 ^ nat (bitlen m - 1) \<le> m" and hi: "m < 2 ^ nat (bitlen m)"
    by simp_all
  have "m + 1 \<le> 2 ^ nat (bitlen m)" using hi by simp
  then have "real_of_int (m + 1) \<le> real_of_int (2 ^ nat (bitlen m))" by (simp only: of_int_le_iff)
  then have tle: "t \<le> 2 ^ nat (bitlen m)" using mt by simp
  have "real_of_int (2 ^ nat (bitlen m - 1)) \<le> real_of_int m" using lo by (simp only: of_int_le_iff)
  then have "(2::real) ^ nat (bitlen m - 1) \<le> real_of_int m" by simp
  then have tgt: "2 ^ nat (bitlen m - 1) < t" using mt by linarith
  have q_eq: "\<bar>q\<bar> = 1 / t" unfolding t_def by simp
  have tpos: "0 < t" using t1 by simp
  have "(2::real) powi (expo q) = inverse (2 powi (bitlen m))"
    unfolding e by (rule power_int_minus)
  also have "(2::real) powi (bitlen m) = 2 ^ nat (bitlen m)"
    using b1 by (simp add: power_int_def)
  finally have p1: "(2::real) powi (expo q) = 1 / 2 ^ nat (bitlen m)"
    by (simp only: inverse_eq_divide)
  have "expo q + 1 = - (bitlen m - 1)" unfolding e by simp
  then have "(2::real) powi (expo q + 1) = inverse (2 powi (bitlen m - 1))"
    by (simp only: power_int_minus)
  also have "(2::real) powi (bitlen m - 1) = 2 ^ nat (bitlen m - 1)"
    using b1 by (simp add: power_int_def)
  finally have p2: "(2::real) powi (expo q + 1) = 1 / 2 ^ nat (bitlen m - 1)"
    by (simp only: inverse_eq_divide)
  have "1 / 2 ^ nat (bitlen m) \<le> 1 / t" using tle tpos by (simp add: frac_le)
  moreover have "1 / t < 1 / 2 ^ nat (bitlen m - 1)" using tgt tpos by (simp add: frac_less2)
  ultimately show ?thesis unfolding p1 p2 q_eq by simp
qed

lemma expo_bounds:
  "q \<noteq> 0 \<Longrightarrow> 2 powi (expo q) \<le> \<bar>q\<bar> \<and> \<bar>q\<bar> < 2 powi (expo q + 1)"
  using expo_bounds_ge1[of q] expo_bounds_lt1[of q] by linarith

lemma two_powi_less_cancel: "(2::real) powi a < 2 powi b \<Longrightarrow> a < b"
  using power_int_increasing[of b a "2::real"] by (cases "a < b") auto

lemma powi_le_abs_nonzero: "(2::real) powi e \<le> \<bar>q\<bar> \<Longrightarrow> q \<noteq> 0"
proof
  assume "(2::real) powi e \<le> \<bar>q\<bar>" "q = 0"
  then have "2 powi e \<le> (0::real)" by simp
  moreover have "(0::real) < 2 powi e" by simp
  ultimately show False by linarith
qed

lemma expo_unique:
  assumes "2 powi e \<le> \<bar>q\<bar>" "\<bar>q\<bar> < 2 powi (e + 1)"
  shows "expo q = e"
proof -
  have q0: "q \<noteq> 0" using assms(1) by (rule powi_le_abs_nonzero)
  from expo_bounds[OF q0] have a: "2 powi (expo q) \<le> \<bar>q\<bar>" and b: "\<bar>q\<bar> < 2 powi (expo q + 1)" by simp_all
  have "(2::real) powi e < 2 powi (expo q + 1)" using assms(1) b by linarith
  then have "e < expo q + 1" by (rule two_powi_less_cancel)
  moreover have "(2::real) powi (expo q) < 2 powi (e + 1)" using a assms(2) by linarith
  then have "expo q < e + 1" by (rule two_powi_less_cancel)
  ultimately show ?thesis by linarith
qed


lemma round_even_cases:
  "round_even r = \<lfloor>r\<rfloor> \<or> round_even r = \<lfloor>r\<rfloor> + 1"
  by (simp add: round_even_def Let_def)

lemma round_even_near: "\<bar>real_of_int (round_even r) - r\<bar> \<le> 1/2"
proof -
  have "real_of_int \<lfloor>r\<rfloor> \<le> r" "r < real_of_int \<lfloor>r\<rfloor> + 1" by linarith+
  then show ?thesis by (auto simp add: round_even_def Let_def)
qed

lemma round_even_of_int: "round_even (real_of_int k) = k"
  by (simp add: round_even_def Let_def)

lemma round_even_zero_iff_small: "\<bar>r\<bar> \<le> 1/2 \<Longrightarrow> round_even r = 0"
proof -
  assume a: "\<bar>r\<bar> \<le> 1/2"
  consider "r = 1/2" | "r = - 1/2" | "\<bar>r\<bar> < 1/2" using a by linarith
  then show ?thesis
  proof cases
    case 1 show ?thesis unfolding 1 by (simp add: round_even_def Let_def)
  next
    case 2 show ?thesis unfolding 2 by (simp add: round_even_def Let_def)
  next
    case 3
    have "\<bar>real_of_int (round_even r)\<bar> < 1" using round_even_near[of r] 3 by linarith
    then show ?thesis by linarith
  qed
qed

lemma round_even_abs_le: "\<bar>real_of_int (round_even r)\<bar> \<le> 2 * \<bar>r\<bar>"
proof (cases "\<bar>r\<bar> \<le> 1/2")
  case True
  then show ?thesis by (simp add: round_even_zero_iff_small)
next
  case False
  then show ?thesis using round_even_near[of r] by linarith
qed

lemma round_even_nonneg: "0 \<le> r \<Longrightarrow> 0 \<le> round_even r"
proof -
  assume "0 \<le> r"
  then have "0 \<le> \<lfloor>r\<rfloor>" by simp
  then show ?thesis using round_even_cases[of r] by linarith
qed

lemma round_even_minus: "round_even (- r) = - round_even r"
proof (cases "r = real_of_int \<lfloor>r\<rfloor>")
  case True
  then obtain k where "r = real_of_int k" ..
  then have "- r = real_of_int (- k)" by simp
  then show ?thesis unfolding \<open>r = real_of_int k\<close> by (simp only: round_even_of_int)
next
  case False
  have fl: "real_of_int \<lfloor>r\<rfloor> < r" "r < real_of_int \<lfloor>r\<rfloor> + 1" using False by linarith+
  then have "\<lfloor>- r\<rfloor> = - \<lfloor>r\<rfloor> - 1" by linarith
  then show ?thesis using fl by (auto simp add: round_even_def Let_def)
qed

lemma ulp32_pos: "0 < ulp32 q"
  by (simp add: ulp32_def)

lemma expo_minus: "expo (- q) = expo q"
  by (simp add: expo_def)

lemma ulp32_minus: "ulp32 (- q) = ulp32 q"
  by (simp add: ulp32_def expo_minus)

lemma rnd_val_minus: "rnd_val (- q) = - rnd_val q"
  by (simp add: rnd_val_def ulp32_minus round_even_minus)

lemma rnd_val_nonneg: "0 \<le> q \<Longrightarrow> 0 \<le> rnd_val q"
  using ulp32_pos[of q] by (simp add: rnd_val_def round_even_nonneg)

lemma rnd_val_error: "\<bar>rnd_val q - q\<bar> \<le> ulp32 q / 2"
proof -
  let ?u = "ulp32 q"
  have u: "0 < ?u" by (rule ulp32_pos)
  have "rnd_val q - q = (real_of_int (round_even (q / ?u)) - q / ?u) * ?u"
    using u by (simp add: rnd_val_def algebra_simps)
  then have "\<bar>rnd_val q - q\<bar> = \<bar>real_of_int (round_even (q / ?u)) - q / ?u\<bar> * ?u"
    using u by (simp add: abs_mult)
  also have "\<dots> \<le> (1/2) * ?u"
    using round_even_near[of "q / ?u"] u by (intro mult_right_mono) simp_all
  finally show ?thesis by simp
qed

lemma rnd_val_abs_le: "\<bar>rnd_val q\<bar> \<le> 2 * \<bar>q\<bar>"
proof -
  let ?u = "ulp32 q"
  have u: "0 < ?u" by (rule ulp32_pos)
  have "\<bar>rnd_val q\<bar> = \<bar>real_of_int (round_even (q / ?u))\<bar> * ?u"
    using u by (simp add: rnd_val_def abs_mult)
  also have "\<dots> \<le> (2 * \<bar>q / ?u\<bar>) * ?u"
    using round_even_abs_le[of "q / ?u"] u by (intro mult_right_mono) simp_all
  also have "\<dots> = 2 * \<bar>q\<bar>" using u by (simp add: abs_divide)
  finally show ?thesis .
qed

lemma rnd32_finite: "\<bar>q\<bar> < 2 ^ 127 \<Longrightarrow> rnd32 q = Fin (rnd_val q)"
proof -
  assume "\<bar>q\<bar> < 2 ^ 127"
  then have "\<bar>rnd_val q\<bar> < 2 ^ 128" using rnd_val_abs_le[of q] by simp
  then have "\<not> 2 ^ 128 \<le> rnd_val q" "\<not> rnd_val q \<le> - (2 ^ 128)" by linarith+
  then show ?thesis unfolding rnd32_def Let_def by (simp only: if_False)
qed

lemma rnd32_not_nan: "rnd32 q \<noteq> NaN"
  by (simp add: rnd32_def Let_def)

lemma rnd32_minus: "rnd32 (- q) = fneg (rnd32 q)"
  by (simp add: rnd32_def Let_def rnd_val_minus)

lemma is_f32_rnd_val: "is_f32 q \<Longrightarrow> rnd_val q = q"
  by (simp add: is_f32_def rnd32_def Let_def split: if_splits)

lemma is_f32_minus: "is_f32 q \<Longrightarrow> is_f32 (- q)"
  by (simp add: is_f32_def rnd32_minus)


lemma expo_ge: 
  assumes "2 powi e \<le> \<bar>q\<bar>" shows "e \<le> expo q"
proof -
  have "q \<noteq> 0" using assms by (rule powi_le_abs_nonzero)
  from expo_bounds[OF this] assms have "(2::real) powi e < 2 powi (expo q + 1)" by linarith
  then have "e < expo q + 1" by (rule two_powi_less_cancel)
  then show ?thesis by simp
qed

lemma expo_lt:
  assumes "q \<noteq> 0" "\<bar>q\<bar> < 2 powi e" shows "expo q < e"
proof -
  from expo_bounds[OF assms(1)] assms(2) have "(2::real) powi (expo q) < 2 powi e" by linarith
  then show ?thesis by (rule two_powi_less_cancel)
qed

lemma ulp32_normal:
  assumes "2 powi (- 126) \<le> \<bar>q\<bar>" shows "ulp32 q = 2 powi (expo q - 23)"
  using expo_ge[OF assms] by (simp add: ulp32_def max_def)

lemma ulp32_subnormal:
  assumes "q \<noteq> 0" "\<bar>q\<bar> < 2 powi (- 126)" shows "ulp32 q = 2 powi (- 149)"
  using expo_lt[OF assms] by (simp add: ulp32_def max_def)

lemma ulp32_le:
  assumes "2 powi (- 126) \<le> \<bar>q\<bar>" shows "ulp32 q \<le> \<bar>q\<bar> / 2 ^ 23"
proof -
  have q0: "q \<noteq> 0" using assms by (rule powi_le_abs_nonzero)
  have "ulp32 q = 2 powi (expo q) / 2 ^ 23"
    unfolding ulp32_normal[OF assms] by (simp add: power_int_diff)
  also have "\<dots> \<le> \<bar>q\<bar> / 2 ^ 23"
    using expo_bounds[OF q0] by (intro divide_right_mono) simp_all
  finally show ?thesis .
qed

lemma rnd_val_lower:
  assumes "2 powi (- 126) \<le> \<bar>q\<bar>" shows "\<bar>q\<bar> / 2 \<le> \<bar>rnd_val q\<bar>"
proof -
  have "ulp32 q / 2 \<le> \<bar>q\<bar> / 2 ^ 23 / 2" using ulp32_le[OF assms] by simp
  also have "\<dots> \<le> \<bar>q\<bar> / 2" by (simp add: field_simps)
  finally have "ulp32 q / 2 \<le> \<bar>q\<bar> / 2" .
  with rnd_val_error[of q] show ?thesis by linarith
qed

lemma rnd32_Fin_bound:
  assumes "rnd32 q = Fin r" shows "\<bar>q\<bar> < 2 ^ 129"
proof (cases "2 powi (- 126) \<le> \<bar>q\<bar>")
  case True
  from assms have "r = rnd_val q" "\<bar>r\<bar> < 2 ^ 128"
    by (auto simp add: rnd32_def Let_def split: if_splits)
  with rnd_val_lower[OF True] show ?thesis by simp
next
  case False
  then have "\<bar>q\<bar> < 2 powi (- 126)" by simp
  also have "\<dots> < (2::real) ^ 129" by simp
  finally show ?thesis .
qed

lemma is_f32_grid:
  assumes "is_f32 q" shows "\<exists>k::int. q = real_of_int k * 2 powi (- 149)"
proof -
  define e where "e = max (expo q) (- 126)"
  have e: "- 126 \<le> e" unfolding e_def by simp
  have "ulp32 q = 2 powi ((e + 126) + (- 149))" unfolding ulp32_def e_def by simp
  also have "\<dots> = 2 powi (e + 126) * 2 powi (- 149)" by (rule power_int_add) simp
  also have "(2::real) powi (e + 126) = real_of_int (2 ^ nat (e + 126))"
    using e by (simp add: power_int_def)
  finally have u: "ulp32 q = real_of_int (2 ^ nat (e + 126)) * 2 powi (- 149)" .
  have "q = real_of_int (round_even (q / ulp32 q)) * ulp32 q"
    using is_f32_rnd_val[OF assms] by (simp add: rnd_val_def)
  then have "q = real_of_int (round_even (q / ulp32 q) * 2 ^ nat (e + 126)) * 2 powi (- 149)"
    unfolding u by simp
  then show ?thesis ..
qed

lemma rnd_val_grid_nonzero:
  assumes "q = real_of_int k * 2 powi (- 149)" "q \<noteq> 0"
  shows "rnd_val q \<noteq> 0"
proof (cases "2 powi (- 126) \<le> \<bar>q\<bar>")
  case True
  from rnd_val_lower[OF True] assms(2) show ?thesis by auto
next
  case False
  define p where "p = (2::real) powi (- 149)"
  have p: "0 < p" unfolding p_def by simp
  have u: "ulp32 q = p" unfolding p_def using assms(2) False by (intro ulp32_subnormal) simp_all
  have q: "q = real_of_int k * p" unfolding p_def by (rule assms(1))
  have d: "q / p = real_of_int k" using p by (simp add: q)
  have "rnd_val q = real_of_int (round_even (q / p)) * p"
    unfolding rnd_val_def u by (rule refl)
  also have "\<dots> = real_of_int k * p" unfolding d round_even_of_int by (rule refl)
  also have "\<dots> = q" by (simp only: q)
  finally show ?thesis using assms(2) by simp
qed

lemma rnd_val_diff_nonzero:
  assumes "is_f32 a" "is_f32 b" "a \<noteq> b"
  shows "rnd_val (a - b) \<noteq> 0"
proof -
  from is_f32_grid[OF assms(1)] obtain ka where ka: "a = real_of_int ka * 2 powi (- 149)" ..
  from is_f32_grid[OF assms(2)] obtain kb where kb: "b = real_of_int kb * 2 powi (- 149)" ..
  have "a - b = real_of_int (ka - kb) * 2 powi (- 149)"
    unfolding ka kb by (simp add: algebra_simps)
  moreover have "a - b \<noteq> 0" using assms(3) by simp
  ultimately show ?thesis by (rule rnd_val_grid_nonzero)
qed

lemma rnd32_bounded:
  assumes "\<bar>q\<bar> \<le> B" "B < 2 ^ 127"
  shows "\<exists>r. rnd32 q = Fin r \<and> \<bar>r\<bar> \<le> 2 * B"
proof -
  have "\<bar>q\<bar> < 2 ^ 127" using assms by linarith
  then have "rnd32 q = Fin (rnd_val q)" by (rule rnd32_finite)
  moreover have "\<bar>rnd_val q\<bar> \<le> 2 * B" using rnd_val_abs_le[of q] assms(1) by linarith
  ultimately show ?thesis by blast
qed

lemma rnd32_cases: "rnd32 q = PInf \<or> rnd32 q = NInf \<or> (\<exists>r. rnd32 q = Fin r)"
  by (simp add: rnd32_def Let_def)

lemma rnd32_nonneg_cases:
  assumes "0 \<le> q" shows "rnd32 q = PInf \<or> (\<exists>r\<ge>0. rnd32 q = Fin r)"
proof -
  have "0 \<le> rnd_val q" using assms by (rule rnd_val_nonneg)
  then show ?thesis by (auto simp add: rnd32_def Let_def)
qed

lemma rnd_val_zero: "rnd_val 0 = 0"
  by (simp add: rnd_val_def round_even_def)

lemma rnd_val_on_grid:
  assumes "r = real_of_int k * ulp32 r" shows "rnd_val r = r"
proof -
  have "r / ulp32 r = real_of_int k" using ulp32_pos[of r] assms
    by (metis nonzero_mult_div_cancel_right less_irrefl)
  then have "rnd_val r = real_of_int k * ulp32 r"
    unfolding rnd_val_def by (simp only: round_even_of_int)
  with assms show ?thesis by simp
qed

lemma ulp32_eq: "ulp32 q = 2 powi (max (expo q) (- 126) - 23)"
  by (rule ulp32_def)

lemma powi_split:
  assumes "E' \<le> E"
  shows "(2::real) powi (E - 23) = real_of_int (2 ^ nat (E - E')) * 2 powi (E' - 23)"
proof -
  have "(2::real) powi (E - 23) = 2 powi ((E - E') + (E' - 23))" by simp
  also have "\<dots> = 2 powi (E - E') * 2 powi (E' - 23)" by (rule power_int_add) simp
  also have "(2::real) powi (E - E') = real_of_int (2 ^ nat (E - E'))"
    using assms by (simp add: power_int_def)
  finally show ?thesis .
qed

lemma powi_24: "(2::real) powi (E + 1) = 2 ^ 24 * 2 powi (E - 23)"
proof -
  have "(2::real) powi (E + 1) = 2 powi (24 + (E - 23))" by (simp add: algebra_simps)
  also have "\<dots> = 2 powi 24 * 2 powi (E - 23)" by (rule power_int_add) simp
  finally show ?thesis by simp
qed

lemma round_even_bound:
  assumes "\<bar>x\<bar> < real_of_int N" shows "\<bar>round_even x\<bar> \<le> N"
proof -
  have "\<bar>real_of_int (round_even x)\<bar> < real_of_int N + 1"
    using round_even_near[of x] assms by linarith
  then have "real_of_int \<bar>round_even x\<bar> < real_of_int (N + 1)" by simp
  then have "\<bar>round_even x\<bar> < N + 1" by (simp only: of_int_less_iff)
  then show ?thesis by simp
qed

lemma rnd_val_idem: "rnd_val (rnd_val q) = rnd_val q"
proof (cases "rnd_val q = 0")
  case True
  then show ?thesis by (simp add: rnd_val_zero)
next
  case r0: False
  then have q0: "q \<noteq> 0" using rnd_val_zero by auto
  define E where "E = max (expo q) (- 126)"
  define u where "u = (2::real) powi (E - 23)"
  define m where "m = round_even (q / u)"
  define r where "r = rnd_val q"
  have u: "0 < u" unfolding u_def by simp
  have E: "- 126 \<le> E" "expo q \<le> E" unfolding E_def by simp_all
  have r: "r = real_of_int m * u" unfolding r_def rnd_val_def m_def u_def ulp32_def E_def ..
  have rn0: "r \<noteq> 0" using r0 unfolding r_def .
  have "\<bar>q\<bar> < 2 powi (expo q + 1)" using expo_bounds[OF q0] by simp
  also have "\<dots> \<le> 2 powi (E + 1)" using E(2) by (intro power_int_increasing) simp_all
  also have "\<dots> = 2 ^ 24 * u" unfolding u_def by (rule powi_24)
  finally have "\<bar>q\<bar> < 2 ^ 24 * u" .
  then have "\<bar>q / u\<bar> < real_of_int (2 ^ 24)" using u by (simp add: abs_divide field_simps)
  then have mb: "\<bar>m\<bar> \<le> 2 ^ 24" unfolding m_def by (rule round_even_bound)
  have ru: "\<bar>r\<bar> = real_of_int \<bar>m\<bar> * u" unfolding r using u by (simp add: abs_mult)
  have "real_of_int \<bar>m\<bar> \<le> real_of_int (2 ^ 24)" using mb by (simp only: of_int_le_iff)
  then have "\<bar>r\<bar> \<le> 2 ^ 24 * u" unfolding ru using u by (intro mult_right_mono) simp_all
  also have "(2::real) ^ 24 * u = 2 powi (E + 1)"
    unfolding u_def by (rule powi_24[symmetric])
  also have "\<dots> < 2 powi (E + 2)" by (intro power_int_strict_increasing) simp_all
  finally have "expo r < E + 2" using rn0 by (intro expo_lt)
  then consider "expo r \<le> E" | "expo r = E + 1" by linarith
  then have "\<exists>k. r = real_of_int k * ulp32 r"
  proof cases
    case 1
    define E' where "E' = max (expo r) (- 126)"
    have le: "E' \<le> E" unfolding E'_def using 1 E(1) by simp
    have "r = real_of_int m * (real_of_int (2 ^ nat (E - E')) * 2 powi (E' - 23))"
      unfolding r u_def powi_split[OF le] ..
    also have "\<dots> = real_of_int (m * 2 ^ nat (E - E')) * ulp32 r"
      unfolding ulp32_def E'_def by simp
    finally show ?thesis ..
  next
    case 2
    have "2 powi (E + 1) \<le> \<bar>r\<bar>" using expo_bounds[OF rn0] unfolding 2 by simp
    then have "2 ^ 24 * u \<le> \<bar>r\<bar>" unfolding u_def powi_24 .
    then have "2 ^ 24 * u \<le> real_of_int \<bar>m\<bar> * u" unfolding ru .
    then have "real_of_int (2 ^ 24) \<le> real_of_int \<bar>m\<bar>" using u by simp
    then have "2 ^ 24 \<le> \<bar>m\<bar>" by (simp only: of_int_le_iff)
    with mb have "\<bar>m\<bar> = 2 ^ 24" by simp
    then have "m = 2 ^ 24 \<or> m = - (2 ^ 24)" by linarith
    then have m2: "m = 2 * (m div 2)" by auto
    have ur: "ulp32 r = 2 powi (E - 22)" unfolding ulp32_def 2 using E(1) by (simp add: max_def)
    have "(2::real) powi (E - 22) = 2 powi (1 + (E - 23))" by simp
    also have "\<dots> = 2 powi 1 * 2 powi (E - 23)" by (rule power_int_add) simp
    finally have "ulp32 r = 2 * u" unfolding ur u_def by simp
    then have "real_of_int (m div 2) * ulp32 r = real_of_int (2 * (m div 2)) * u" by simp
    also have "\<dots> = r" unfolding r using m2 by simp
    finally show ?thesis by (intro exI[of _ "m div 2"]) simp
  qed
  then obtain k where "r = real_of_int k * ulp32 r" ..
  then have "rnd_val r = r" by (rule rnd_val_on_grid)
  then show ?thesis unfolding r_def .
qed

lemma rnd32_is_f32: "rnd32 q = Fin r \<Longrightarrow> is_f32 r"
proof -
  assume a: "rnd32 q = Fin r"
  then have r: "r = rnd_val q" and b: "\<not> 2 ^ 128 \<le> r" "\<not> r \<le> - (2 ^ 128)"
    by (auto simp add: rnd32_def Let_def split: if_splits)
  have "rnd_val r = r" unfolding r by (rule rnd_val_idem)
  then show ?thesis unfolding is_f32_def rnd32_def Let_def using b by simp
qed

lemma is_f32_iff: "is_f32 q \<longleftrightarrow> rnd_val q = q \<and> \<bar>q\<bar> < 2 ^ 128"
  by (auto simp add: is_f32_def rnd32_def Let_def split: if_splits)

lemma is_f32_on_grid:
  assumes "r = real_of_int k * ulp32 r" "\<bar>r\<bar> < 2 ^ 128"
  shows "is_f32 r"
  using rnd_val_on_grid[OF assms(1)] assms(2) by (simp add: is_f32_iff)

lemma div_ge1_le:
  fixes a b :: real
  assumes "0 \<le> a" "1 \<le> b" shows "a / b \<le> a"
proof -
  have "a / b \<le> a / 1" using assms by (intro divide_left_mono) simp_all
  then show ?thesis by simp
qed

lemma two_powi_neg_nat: "(2::real) powi (- int j) = 1 / 2 ^ j"
proof -
  have "(2::real) powi (- int j) = inverse (2 powi (int j))" by (rule power_int_minus)
  also have "\<dots> = 1 / 2 ^ j" by (simp only: power_int_of_nat inverse_eq_divide)
  finally show ?thesis .
qed

lemma scaled_int_is_f32:
  fixes k :: int and j :: nat
  assumes k: "\<bar>k\<bar> < 2 ^ 24" and j: "j \<le> 100"
  shows "is_f32 (real_of_int k / 2 ^ j)"
proof (cases "k = 0")
  case True
  then show ?thesis by (simp add: is_f32_def rnd32_zero)
next
  case False
  define r where "r = real_of_int k / 2 ^ j"
  have r0: "r \<noteq> 0" unfolding r_def using False by simp
  define E where "E = max (expo r) (- 126)"
  have "real_of_int \<bar>k\<bar> < real_of_int (2 ^ 24)" using k by (simp only: of_int_less_iff)
  then have ka: "\<bar>real_of_int k\<bar> < 2 ^ 24" by simp
  have ra: "\<bar>r\<bar> = \<bar>real_of_int k\<bar> / 2 ^ j" unfolding r_def by (simp add: abs_divide)
  have rb: "\<bar>r\<bar> < 2 ^ 24 / 2 ^ j"
    unfolding ra using ka by (intro divide_strict_right_mono) simp_all
  have "(2::real) powi (24 - int j) = 2 powi 24 * 2 powi (- int j)"
    by (simp only: diff_conv_add_uminus) (rule power_int_add, simp)
  also have "\<dots> = 2 ^ 24 / 2 ^ j" unfolding two_powi_neg_nat by simp
  finally have "\<bar>r\<bar> < 2 powi (24 - int j)" using rb by simp
  from expo_lt[OF r0 this] have e: "expo r < 24 - int j" .
  have Ele: "E \<le> 23 - int j" unfolding E_def using e j by simp
  define s where "s = nat (23 - int j - E)"
  have "(2::real) powi (- int j) = 2 powi ((23 - int j - E) + (E - 23))" by simp
  also have "\<dots> = 2 powi (23 - int j - E) * 2 powi (E - 23)" by (rule power_int_add) simp
  also have "(2::real) powi (23 - int j - E) = real_of_int (2 ^ s)"
    unfolding s_def using Ele by (simp add: power_int_def)
  finally have sp: "(2::real) powi (- int j) = real_of_int (2 ^ s) * 2 powi (E - 23)" .
  have "r = real_of_int k * 2 powi (- int j)"
    unfolding r_def two_powi_neg_nat by simp
  also have "\<dots> = real_of_int (k * 2 ^ s) * ulp32 r"
    unfolding sp ulp32_def E_def by simp
  finally have g: "r = real_of_int (k * 2 ^ s) * ulp32 r" .
  have "\<bar>r\<bar> \<le> \<bar>real_of_int k\<bar>" unfolding ra by (rule div_ge1_le) simp_all
  then have "\<bar>r\<bar> < 2 ^ 128" using ka by simp
  with g show ?thesis unfolding r_def[symmetric] by (rule is_f32_on_grid)
qed


section \<open>Neighbouring binary32 numbers\<close>

text \<open>
  Between two consecutive multiples of the unit in the last place there is no binary32
  number: this gives the greatest binary32 number below a band join of \<^verbatim>\<open>heat_lut\<close>.
\<close>

lemma f32_gap:
  assumes e: "- 126 \<le> e"
    and p: "p = real_of_int k * 2 powi (e - 23)"
    and c: "c = real_of_int (k + 1) * 2 powi (e - 23)"
    and lo: "2 powi e \<le> p" and hi: "c \<le> 2 powi (e + 1)"
    and q: "is_f32 q" "q < c"
  shows "q \<le> p"
proof (rule ccontr)
  assume "\<not> q \<le> p"
  then have pq: "p < q" by simp
  define u where "u = (2::real) powi (e - 23)"
  have u: "0 < u" unfolding u_def by simp
  have "(0::real) < 2 powi e" by simp
  then have q0: "0 < q" using lo pq by linarith
  have b: "2 powi e \<le> \<bar>q\<bar>" "\<bar>q\<bar> < 2 powi (e + 1)" using lo hi pq q(2) q0 by simp_all
  have "expo q = e" using b by (rule expo_unique)
  then have uq: "ulp32 q = u" unfolding ulp32_def u_def using e by (simp add: max_def)
  define m where "m = round_even (q / u)"
  have "q = real_of_int m * u"
    using is_f32_rnd_val[OF q(1)] unfolding rnd_val_def uq m_def by simp
  then have "real_of_int k * u < real_of_int m * u" "real_of_int m * u < real_of_int (k + 1) * u"
    using pq q(2) unfolding p c u_def by simp_all
  then have "real_of_int k < real_of_int m" "real_of_int m < real_of_int (k + 1)"
    using u by simp_all
  then have "k < m" "m < k + 1" by (simp_all only: of_int_less_iff)
  then show False by simp
qed

lemma below_quarter:
  "is_f32 (1/4 - 1/2^26) \<and> (\<forall>q. is_f32 q \<and> q < 1/4 \<longrightarrow> q \<le> 1/4 - 1/2^26)"
proof -
  have "is_f32 (1/4 - 1/2^26)" by (simp add: is_f32_def rnd32_eval)
  moreover have "q \<le> 1/4 - 1/2^26" if "is_f32 q" "q < 1/4" for q
    by (rule f32_gap[of "- 3" _ 16777215 "1/4", OF _ _ _ _ _ that]) simp_all
  ultimately show ?thesis by blast
qed

lemma below_half:
  "is_f32 (1/2 - 1/2^25) \<and> (\<forall>q. is_f32 q \<and> q < 1/2 \<longrightarrow> q \<le> 1/2 - 1/2^25)"
proof -
  have "is_f32 (1/2 - 1/2^25)" by (simp add: is_f32_def rnd32_eval)
  moreover have "q \<le> 1/2 - 1/2^25" if "is_f32 q" "q < 1/2" for q
    by (rule f32_gap[of "- 2" _ 16777215 "1/2", OF _ _ _ _ _ that]) simp_all
  ultimately show ?thesis by blast
qed

lemma below_three_quarters:
  "is_f32 (3/4 - 1/2^24) \<and> (\<forall>q. is_f32 q \<and> q < 3/4 \<longrightarrow> q \<le> 3/4 - 1/2^24)"
proof -
  have "is_f32 (3/4 - 1/2^24)" by (simp add: is_f32_def rnd32_eval)
  moreover have "q \<le> 3/4 - 1/2^24" if "is_f32 q" "q < 3/4" for q
    by (rule f32_gap[of "- 1" _ 12582911 "3/4", OF _ _ _ _ _ that]) simp_all
  ultimately show ?thesis by blast
qed

lemma heat_lut_alpha: "heat_lut x = Inr c \<Longrightarrow> a_chan c = 255"
  unfolding heat_lut_unfold
  by (auto simp add: rgba_def map_sum_def split: if_splits sum.splits)

lemma fsub_Fin: "fsub (Fin a) (Fin b) = rnd32 (a - b)"
  by (simp add: fsub_def)

lemma rnd32_Fin_rnd_val: "rnd32 q = Fin d \<Longrightarrow> d = rnd_val q"
  by (simp add: rnd32_def Let_def split: if_splits)

lemma rnd32_is_f32_eq: "is_f32 q \<Longrightarrow> rnd32 q = Fin q"
  by (simp add: is_f32_def)

lemma rnd32_minus_one: "rnd32 (- 1) = Fin (- 1)"
  by (simp add: rnd32_eval)

section \<open>The normalised iteration count\<close>

text \<open>
  The value passed to \<^verbatim>\<open>heat_lut\<close> depends on the count \<open>i\<close> only, and \<open>i\<close> has 101 possible
  values: each is evaluated.
\<close>

lemma normalized_all:
  "list_all (\<lambda>i. normalized i = rnd32 (real_of_int (255 * i div 100) / 255)) (0 # 1 # [2..100])"
  by (simp cong: list_all_weak_cong add: f32_eval)

lemma normalized_eq:
  assumes "0 \<le> i" "i \<le> 100"
  shows "normalized i = rnd32 (real_of_int (255 * i div 100) / 255)"
  by (rule bspec[OF normalized_all[unfolded list_all_iff] count_cases[OF assms]])

lemma levels_in_range:
  "list_all (\<lambda>i. fle (Fin 0) (rnd32 (real_of_int (255 * i div 100) / 255))
      \<and> fle (rnd32 (real_of_int (255 * i div 100) / 255)) (Fin 1)
      \<and> \<not> isl (heat_lut (rnd32 (real_of_int (255 * i div 100) / 255)))) (0 # 1 # [2..100])"
  by (simp cong: list_all_weak_cong add: f32_eval)

lemma normalized_in_range:
  assumes "0 \<le> i" "i \<le> 100"
  shows "fle (Fin 0) (normalized i) \<and> fle (normalized i) (Fin 1) \<and> \<not> isl (heat_lut (normalized i))"
  unfolding normalized_eq[OF assms]
  by (rule bspec[OF levels_in_range[unfolded list_all_iff] count_cases[OF assms]])

section \<open>The loop\<close>

text \<open>
  The loop walks through the sequence \<open>orbit\<close> and stops at the first point that is not
  below 4 in squared norm, or at \<open>n\<close>. For a finite mapped point no point of the sequence
  that the loop reaches is a NaN.
\<close>

lemma float_of_int_small:
  "float_of_int 4 = Fin 4" "float_of_int 2 = Fin 2" "float_of_int 0 = Fin 0"
  "float_of_int 1 = Fin 1" "float_of_int (- 1) = Fin (- 1)" "float_of_int 32 = Fin 32"
  by (simp_all add: float_of_int_def rnd32_eval)

lemma mandel_loop_step:
  assumes "flt (fadd (fmul mx mx) (fmul my my)) (Fin 4)" "i < n"
  shows "mandel_loop mx0 my0 n mx my i =
         mandel_loop mx0 my0 n (fadd (fsub (fmul mx mx) (fmul my my)) mx0)
           (fadd (fmul (fmul (Fin 2) mx) my) my0) (i + 1)"
  by (subst mandel_loop.simps) (simp add: assms float_of_int_small Let_def)

lemma mandel_loop_stop:
  assumes "\<not> flt (fadd (fmul mx mx) (fmul my my)) (Fin 4) \<or> \<not> i < n"
  shows "mandel_loop mx0 my0 n mx my i = i"
  using assms by (subst mandel_loop.simps) (auto simp add: float_of_int_small)

lemma mandel_loop_bounds:
  "i \<le> n \<Longrightarrow> i \<le> mandel_loop mx0 my0 n mx my i \<and> mandel_loop mx0 my0 n mx my i \<le> n"
proof (induction mx0 my0 n mx my i rule: mandel_loop.induct)
  case (1 mx0 my0 n mx my i)
  show ?case
  proof (cases "flt (fadd (fmul mx mx) (fmul my my)) (Fin 4) \<and> i < n")
    case True
    then have "i + 1 \<le> n" by simp
    from 1(1)[OF _ refl refl this] True show ?thesis
      by (simp add: mandel_loop_step float_of_int_small)
  next
    case False
    then have "mandel_loop mx0 my0 n mx my i = i"
      by (intro mandel_loop_stop) blast
    with 1(2) show ?thesis by simp
  qed
qed

lemma escape_count_bounds:
  "0 \<le> escape_count x y width height \<and> escape_count x y width height \<le> 100"
  unfolding escape_count_def Let_def by (rule mandel_loop_bounds) simp

lemma mandel_loop_origin:
  "mandel_loop (Fin 0) (Fin 0) n (Fin 0) (Fin 0) i = (if i < n then n else i)"
proof (induction "nat (n - i)" arbitrary: i)
  case 0
  then show ?case by (subst mandel_loop.simps) simp
next
  case (Suc k)
  then have "nat (n - (i + 1)) = k" "i < n" by linarith+
  with Suc.hyps(1)[of "i + 1"] show ?case
    by (subst mandel_loop.simps) (simp add: rnd32_eval float_of_int_def fsub_def)
qed

lemma escape_count_0_0_4_2: "escape_count 0 0 4 2 = 1"
  by (simp add: escape_count_def pixel_re_def pixel_im_def f32_eval mandel_loop_step mandel_loop_stop)

lemma escape_count_5_1_7_2: "escape_count 5 1 7 2 = 100"
  by (simp add: escape_count_def pixel_re_def pixel_im_def f32_eval mandel_loop_origin)

lemma fadd_Fin_not_nan: "v \<noteq> NaN \<Longrightarrow> fadd v (Fin c) \<noteq> NaN"
  by (cases v) (simp_all add: rnd32_not_nan)

lemma fmul_self_cases:
  assumes "v \<noteq> NaN"
  shows "fmul v v = PInf \<or> (\<exists>a r. v = Fin a \<and> rnd32 (a * a) = Fin r \<and> fmul v v = Fin r \<and> 0 \<le> r)"
proof (cases v)
  case (Fin a)
  have "0 \<le> a * a" by simp
  from rnd32_nonneg_cases[OF this] show ?thesis using Fin by auto
qed (use assms in simp_all)

lemma norm_lt_4_finite:
  assumes "mx \<noteq> NaN" "my \<noteq> NaN" "flt (fadd (fmul mx mx) (fmul my my)) (Fin 4)"
  obtains a b r1 r2 where "mx = Fin a" "my = Fin b" "rnd32 (a * a) = Fin r1" "rnd32 (b * b) = Fin r2"
proof -
  from fmul_self_cases[OF assms(1)] fmul_self_cases[OF assms(2)] assms(3)
  have "\<exists>a b r1 r2. mx = Fin a \<and> my = Fin b \<and> rnd32 (a * a) = Fin r1 \<and> rnd32 (b * b) = Fin r2"
    by (elim disjE exE conjE) (simp_all)
  then show ?thesis using that by blast
qed

lemma norm_sq_not_nan:
  assumes "mx \<noteq> NaN" "my \<noteq> NaN"
  shows "fadd (fmul mx mx) (fmul my my) \<noteq> NaN"
  using fmul_self_cases[OF assms(1)] fmul_self_cases[OF assms(2)]
  by (elim disjE exE conjE) (simp_all add: rnd32_not_nan)

lemma not_flt_imp_fle: "v \<noteq> NaN \<Longrightarrow> \<not> flt v (Fin c) \<Longrightarrow> fle (Fin c) v"
  by (cases v) simp_all

lemma flt_imp_not_fle: "flt v (Fin c) \<Longrightarrow> \<not> fle (Fin c) v"
  by (cases v) simp_all

lemma square_bound:
  fixes a :: real
  assumes "\<bar>a * a\<bar> < 2 ^ 129" shows "\<bar>a\<bar> < 2 ^ 65"
proof (rule ccontr)
  assume "\<not> \<bar>a\<bar> < 2 ^ 65"
  then have "2 ^ 65 \<le> \<bar>a\<bar>" by simp
  then have "(2 ^ 65) * (2 ^ 65) \<le> \<bar>a\<bar> * \<bar>a\<bar>" by (intro mult_mono) simp_all
  then have "(2::real) ^ 130 \<le> \<bar>a * a\<bar>" by (simp add: abs_mult)
  with assms show False by simp
qed

lemma step_not_nan:
  assumes "mx \<noteq> NaN" "my \<noteq> NaN" "flt (fadd (fmul mx mx) (fmul my my)) (Fin 4)"
  shows "fadd (fsub (fmul mx mx) (fmul my my)) (Fin c) \<noteq> NaN
       \<and> fadd (fmul (fmul (Fin 2) mx) my) (Fin d) \<noteq> NaN"
proof -
  from assms obtain a b r1 r2 where
    ab: "mx = Fin a" "my = Fin b" and r: "rnd32 (a * a) = Fin r1" "rnd32 (b * b) = Fin r2"
    by (rule norm_lt_4_finite)
  have "fsub (fmul mx mx) (fmul my my) = rnd32 (r1 - r2)"
    by (simp add: ab r fsub_def)
  then have one: "fadd (fsub (fmul mx mx) (fmul my my)) (Fin c) \<noteq> NaN"
    by (simp add: fadd_Fin_not_nan rnd32_not_nan)
  have "\<bar>a\<bar> < 2 ^ 65" using rnd32_Fin_bound[OF r(1)] by (rule square_bound)
  then have "\<bar>2 * a\<bar> < 2 ^ 127" by simp
  then have "rnd32 (2 * a) = Fin (rnd_val (2 * a))" by (rule rnd32_finite)
  then have "fmul (fmul (Fin 2) mx) my = rnd32 (rnd_val (2 * a) * b)"
    by (simp add: ab)
  then have "fadd (fmul (fmul (Fin 2) mx) my) (Fin d) \<noteq> NaN"
    by (simp add: fadd_Fin_not_nan rnd32_not_nan)
  with one show ?thesis by simp
qed

lemma orbit_not_nan:
  assumes "\<forall>k<j. flt (norm_sq (orbit (Fin c) (Fin d) k)) (Fin 4)"
  shows "fst (orbit (Fin c) (Fin d) j) \<noteq> NaN \<and> snd (orbit (Fin c) (Fin d) j) \<noteq> NaN"
  using assms
proof (induction j)
  case 0
  show ?case by simp
next
  case (Suc j)
  then have ih: "fst (orbit (Fin c) (Fin d) j) \<noteq> NaN" "snd (orbit (Fin c) (Fin d) j) \<noteq> NaN"
    and lt: "flt (norm_sq (orbit (Fin c) (Fin d) j)) (Fin 4)" by simp_all
  obtain mx my where p: "orbit (Fin c) (Fin d) j = (mx, my)" by (cases "orbit (Fin c) (Fin d) j")
  from step_not_nan[of mx my c d] ih lt show ?case by (simp add: p norm_sq_def)
qed

lemma mandel_loop_orbit:
  assumes "0 \<le> i" "i \<le> n" "orbit mx0 my0 (nat i) = (mx, my)"
  shows "(\<forall>k. nat i \<le> k \<and> k < nat (mandel_loop mx0 my0 n mx my i)
              \<longrightarrow> flt (norm_sq (orbit mx0 my0 k)) (Fin 4))
       \<and> (mandel_loop mx0 my0 n mx my i = n
          \<or> \<not> flt (norm_sq (orbit mx0 my0 (nat (mandel_loop mx0 my0 n mx my i)))) (Fin 4))"
  using assms
proof (induction mx0 my0 n mx my i rule: mandel_loop.induct)
  case (1 mx0 my0 n mx my i)
  show ?case
  proof (cases "flt (fadd (fmul mx mx) (fmul my my)) (Fin 4) \<and> i < n")
    case True
    let ?mx = "fadd (fsub (fmul mx mx) (fmul my my)) mx0"
    let ?my = "fadd (fmul (fmul (Fin 2) mx) my) my0"
    have st: "mandel_loop mx0 my0 n mx my i = mandel_loop mx0 my0 n ?mx ?my (i + 1)"
      using True by (simp add: mandel_loop_step)
    have nat_suc: "nat (i + 1) = Suc (nat i)" using 1(2) by simp
    have o: "orbit mx0 my0 (nat (i + 1)) = (?mx, ?my)"
      unfolding nat_suc by (simp add: 1(4))
    have c: "flt (fadd (fmul mx mx) (fmul my my)) (float_of_int (2 * 2)) \<and> i < n"
      using True by (simp add: float_of_int_small)
    have ih: "(\<forall>k. nat (i + 1) \<le> k \<and> k < nat (mandel_loop mx0 my0 n ?mx ?my (i + 1))
              \<longrightarrow> flt (norm_sq (orbit mx0 my0 k)) (Fin 4))
       \<and> (mandel_loop mx0 my0 n ?mx ?my (i + 1) = n
          \<or> \<not> flt (norm_sq (orbit mx0 my0 (nat (mandel_loop mx0 my0 n ?mx ?my (i + 1))))) (Fin 4))"
      using 1(1)[OF c refl refl, unfolded float_of_int_small, OF _ _ o] 1(2) True by simp
    have here: "flt (norm_sq (orbit mx0 my0 (nat i))) (Fin 4)"
      using True by (simp add: 1(4) norm_sq_def)
    have "\<And>k. nat i \<le> k \<Longrightarrow> k = nat i \<or> nat (i + 1) \<le> k" unfolding nat_suc by linarith
    with ih here show ?thesis unfolding st by blast
  next
    case False
    then have st: "mandel_loop mx0 my0 n mx my i = i" by (intro mandel_loop_stop) blast
    have "i = n \<or> \<not> flt (norm_sq (orbit mx0 my0 (nat i))) (Fin 4)"
      using False 1(3) by (auto simp add: 1(4) norm_sq_def)
    moreover have "\<forall>k. nat i \<le> k \<and> k < nat i \<longrightarrow> flt (norm_sq (orbit mx0 my0 k)) (Fin 4)"
      by auto
    ultimately show ?thesis unfolding st by blast
  qed
qed


lemma clamp_finite:
  assumes a: "\<bar>a\<bar> \<le> 2 ^ 32"
    and d: "rnd32 (- w) = Fin d" "1 / 4 \<le> \<bar>d\<bar>"
    and lo: "\<bar>lo\<bar> \<le> 4" "\<bar>hi\<bar> \<le> 4"
  shows "\<exists>r. clamp (Fin a) (Fin 0) (Fin w) (Fin lo) (Fin hi) = Fin r"
proof -
  from rnd32_bounded[OF a] obtain n where n: "rnd32 a = Fin n" "\<bar>n\<bar> \<le> 2 * 2 ^ 32"
    by auto
  have d0: "d \<noteq> 0" using d(2) by auto
  have "\<bar>n / d\<bar> = \<bar>n\<bar> / \<bar>d\<bar>" by (rule abs_divide)
  also have "\<dots> \<le> (2 * 2 ^ 32) / (1 / 4)"
    using n(2) d(2) by (intro frac_le) simp_all
  finally have "\<bar>n / d\<bar> \<le> 2 ^ 35" by simp
  from rnd32_bounded[OF this] obtain p where p: "rnd32 (n / d) = Fin p" "\<bar>p\<bar> \<le> 2 * 2 ^ 35"
    by auto
  have "\<bar>lo - hi\<bar> \<le> 8" using lo by linarith
  from rnd32_bounded[OF this] obtain s where s: "rnd32 (lo - hi) = Fin s" "\<bar>s\<bar> \<le> 2 * 8"
    by auto
  have "\<bar>p * s\<bar> = \<bar>p\<bar> * \<bar>s\<bar>" by (rule abs_mult)
  also have "\<dots> \<le> (2 * 2 ^ 35) * (2 * 8)" using p(2) s(2) by (intro mult_mono) simp_all
  finally have "\<bar>p * s\<bar> \<le> 2 ^ 40" by simp
  from rnd32_bounded[OF this] obtain m where m: "rnd32 (p * s) = Fin m" "\<bar>m\<bar> \<le> 2 * 2 ^ 40"
    by auto
  have "\<bar>m + lo\<bar> \<le> 2 ^ 42" using m(2) lo(1) by simp
  from rnd32_bounded[OF this] obtain r where r: "rnd32 (m + lo) = Fin r" by auto
  have "clamp (Fin a) (Fin 0) (Fin w) (Fin lo) (Fin hi) = Fin r"
    using d0 by (simp add: clamp_unfold fsub_def n d p s m r)
  then show ?thesis ..
qed

lemma float_of_int_int32:
  assumes "\<bar>k\<bar> \<le> 2 ^ 31"
  shows "\<exists>r. float_of_int k = Fin r \<and> \<bar>r\<bar> \<le> 2 ^ 32"
proof -
  have "\<bar>real_of_int k\<bar> \<le> 2 ^ 31" using assms by (simp flip: of_int_abs add: of_int_le_numeral_power_cancel_iff)
  from rnd32_bounded[OF this] show ?thesis by (simp add: float_of_int_def)
qed

lemma neg_float_of_int_pos:
  assumes "1 \<le> k" "k \<le> 2 ^ 31" "float_of_int k = Fin w"
  shows "\<exists>d. rnd32 (- w) = Fin d \<and> 1 / 4 \<le> \<bar>d\<bar>"
proof -
  have ku: "real_of_int k \<le> 2 ^ 31"
    using assms(2) by (simp add: of_int_le_numeral_power_cancel_iff)
  have k: "\<bar>real_of_int k\<bar> < 2 ^ 127" "1 \<le> \<bar>real_of_int k\<bar>"
    using ku assms(1) by simp_all
  have w: "w = rnd_val (real_of_int k)"
    using assms(3) rnd32_finite[OF k(1)] by (simp add: float_of_int_def)
  have "(2::real) powi (- 126) \<le> 2 powi 0" by (intro power_int_increasing) simp_all
  then have small: "(2::real) powi (- 126) \<le> 1" by simp
  then have "2 powi (- 126) \<le> \<bar>real_of_int k\<bar>" using k(2) by linarith
  from rnd_val_lower[OF this] have wl: "1 / 2 \<le> \<bar>w\<bar>" unfolding w using k(2) by linarith
  have "\<bar>real_of_int k\<bar> \<le> 2 ^ 31" using ku assms(1) by simp
  then have wu: "\<bar>w\<bar> \<le> 2 ^ 32" unfolding w using rnd_val_abs_le[of "real_of_int k"]
    by simp
  then have "\<bar>- w\<bar> < 2 ^ 127" by simp
  then have f: "rnd32 (- w) = Fin (rnd_val (- w))" by (rule rnd32_finite)
  have "2 powi (- 126) \<le> \<bar>- w\<bar>" using small wl by simp
  from rnd_val_lower[OF this] have "1 / 4 \<le> \<bar>rnd_val (- w)\<bar>" using wl by simp
  with f show ?thesis by blast
qed

lemma pixel_re_finite:
  assumes "0 \<le> x" "x < width" "width < 2 ^ 31"
  shows "\<exists>c. pixel_re x width = Fin c"
proof -
  from float_of_int_int32[of x] assms obtain a where a: "float_of_int x = Fin a" "\<bar>a\<bar> \<le> 2 ^ 32"
    by auto
  from float_of_int_int32[of width] assms obtain w where w: "float_of_int width = Fin w"
    by auto
  from neg_float_of_int_pos[OF _ _ w] assms obtain d where d: "rnd32 (- w) = Fin d" "1 / 4 \<le> \<bar>d\<bar>"
    by auto
  from clamp_finite[OF a(2) d, of "- 5 / 2" 1] show ?thesis
    by (simp add: pixel_re_def a w float_of_int_small)
qed

lemma pixel_im_finite:
  assumes "0 \<le> y" "y < height" "height < 2 ^ 31"
  shows "\<exists>c. pixel_im y height = Fin c"
proof -
  from float_of_int_int32[of y] assms obtain a where a: "float_of_int y = Fin a" "\<bar>a\<bar> \<le> 2 ^ 32"
    by auto
  from float_of_int_int32[of height] assms obtain w where w: "float_of_int height = Fin w"
    by auto
  from neg_float_of_int_pos[OF _ _ w] assms obtain d where d: "rnd32 (- w) = Fin d" "1 / 4 \<le> \<bar>d\<bar>"
    by auto
  from clamp_finite[OF a(2) d, of "- 1" 1] show ?thesis
    by (simp add: pixel_im_def a w float_of_int_small)
qed

lemma normalized_100: "normalized 100 = Fin 1"
  by (simp add: f32_eval)

lemma heat_lut_one: "heat_lut (Fin 1) = Inr (rgba 0 0 0 255)"
  by (simp add: f32_eval)

lemma level_exact_iff:
  "list_all (\<lambda>i. (rnd32 (real_of_int (255 * i div 100) / 255) = rnd32 (real_of_int i / 100))
             = (i mod 20 = 0)) (0 # 1 # [2..100])"
  by (simp cong: list_all_weak_cong add: rnd32_eval)

section \<open>The kernel threads\<close>

text \<open>
  One thread either leaves the buffer alone or stores one pixel. The slots of two
  pixels of the image do not overlap when the pitch is at least the row length, and two
  threads of a launch have different coordinates as long as the coordinates fit
  \<^verbatim>\<open>int\<close>.
\<close>

lemma pixel_color_returns: "\<exists>color. pixel_color x y width height = Inr color"
proof -
  have "\<not> isl (heat_lut (normalized (escape_count x y width height)))"
    using normalized_in_range escape_count_bounds by blast
  then show ?thesis
    unfolding pixel_color_def by (cases "heat_lut (normalized (escape_count x y width height))") auto
qed

lemma kernel_body_outside:
  "width \<le> x \<or> height \<le> y \<Longrightarrow> kernel_body buffer width height pitch x y = Inr buffer"
  by (simp add: kernel_body_def)

lemma kernel_body_inside:
  assumes "x < width" "y < height"
  shows "\<exists>color. kernel_body buffer width height pitch x y =
           Inr (store_pixel buffer (y * int pitch + 4 * x) color)"
proof -
  from pixel_color_returns obtain color where "pixel_color x y width height = Inr color" ..
  then have "kernel_body buffer width height pitch x y =
           Inr (store_pixel buffer (y * int pitch + 4 * x) color)"
    using assms by (simp add: kernel_body_def Let_def)
  then show ?thesis ..
qed

lemma store_pixel_elsewhere:
  "a < off \<or> off + 3 < a \<Longrightarrow> store_pixel buffer off c a = buffer a"
  by (auto simp add: store_pixel_def)

lemma store_pixel_bytes:
  "store_pixel buffer off c off = r_chan c" "store_pixel buffer off c (off + 1) = g_chan c"
  "store_pixel buffer off c (off + 2) = b_chan c" "store_pixel buffer off c (off + 3) = a_chan c"
  by (simp_all add: store_pixel_def)

lemma kernel_body_stores:
  assumes "x < width" "y < height"
  shows "\<exists>color buffer'. pixel_color x y width height = Inr color
           \<and> kernel_body buffer width height pitch x y = Inr buffer'
           \<and> buffer' (y * int pitch + 4 * x) = r_chan color
           \<and> buffer' (y * int pitch + 4 * x + 1) = g_chan color
           \<and> buffer' (y * int pitch + 4 * x + 2) = b_chan color
           \<and> buffer' (y * int pitch + 4 * x + 3) = a_chan color
           \<and> (\<forall>a. a < y * int pitch + 4 * x \<or> y * int pitch + 4 * x + 3 < a \<longrightarrow>
                  buffer' a = buffer a)"
proof -
  from pixel_color_returns obtain color where c: "pixel_color x y width height = Inr color" ..
  let ?b = "store_pixel buffer (y * int pitch + 4 * x) color"
  have k: "kernel_body buffer width height pitch x y = Inr ?b"
    using assms c by (simp add: kernel_body_def Let_def)
  have e: "\<forall>a. a < y * int pitch + 4 * x \<or> y * int pitch + 4 * x + 3 < a \<longrightarrow> ?b a = buffer a"
    using store_pixel_elsewhere by blast
  show ?thesis
    by (intro exI[of _ color] exI[of _ ?b] conjI c k store_pixel_bytes e)
qed

lemma pixel_slots_disjoint:
  fixes x y x' y' width :: int and pitch :: nat
  assumes "0 \<le> x" "x < width" "0 \<le> y" "0 \<le> x'" "x' < width" "0 \<le> y'"
    and "4 * width \<le> int pitch" and "x \<noteq> x' \<or> y \<noteq> y'"
  shows "y' * int pitch + 4 * x' + 3 < y * int pitch + 4 * x
       \<or> y * int pitch + 4 * x + 3 < y' * int pitch + 4 * x'"
proof -
  consider "y = y'" | "y < y'" | "y' < y" by linarith
  then show ?thesis
  proof cases
    case 1
    then have "x \<noteq> x'" using assms(8) by simp
    then show ?thesis unfolding 1 by linarith
  next
    case 2
    then have "y + 1 \<le> y'" by simp
    then have "(y + 1) * int pitch \<le> y' * int pitch" by (intro mult_right_mono) simp_all
    then have "y * int pitch + int pitch \<le> y' * int pitch" by (simp add: algebra_simps)
    then show ?thesis using assms by linarith
  next
    case 3
    then have "y' + 1 \<le> y" by simp
    then have "(y' + 1) * int pitch \<le> y * int pitch" by (intro mult_right_mono) simp_all
    then have "y' * int pitch + int pitch \<le> y * int pitch" by (simp add: algebra_simps)
    then show ?thesis using assms by linarith
  qed
qed

lemma thread_coord_nowrap:
  assumes "unat bd * unat bi + unat ti < 2 ^ 31"
  shows "thread_coord bd bi ti = int (unat bd * unat bi + unat ti)"
proof -
  define N where "N = unat bd * unat bi + unat ti"
  have N: "N < 2 ^ 31" unfolding N_def by (rule assms)
  have m: "unat (bd * bi) = unat bd * unat bi"
    using assms by (intro unat_mult_lem[THEN iffD1]) simp
  have a: "unat (bd * bi + ti) = N"
    unfolding N_def using assms m by (simp add: unat_add_lem[THEN iffD1])
  have u: "uint (bd * bi + ti) = int N"
    unfolding uint_nat a by (rule refl)
  have "sint (bd * bi + ti) = signed_take_bit 31 (uint (bd * bi + ti))"
    by (simp add: sint_uint)
  also have "\<dots> = int N"
    unfolding u using N by (intro signed_take_bit_int_eq_self) simp_all
  finally show ?thesis unfolding thread_coord_def N_def .
qed

lemma thread_coord_inj:
  assumes "unat bd * unat bi + unat ti < 2 ^ 31" "unat bd * unat bi' + unat ti' < 2 ^ 31"
    and "ti < bd" "ti' < bd"
    and "thread_coord bd bi ti = thread_coord bd bi' ti'"
  shows "bi = bi' \<and> ti = ti'"
proof -
  define N where "N = unat bd * unat bi + unat ti"
  define N' where "N' = unat bd * unat bi' + unat ti'"
  have "int N = int N'"
    using assms(5) unfolding thread_coord_nowrap[OF assms(1)] thread_coord_nowrap[OF assms(2)]
      N_def N'_def .
  then have e: "N = N'" by (simp only: of_nat_eq_iff)
  have lt: "unat ti < unat bd" "unat ti' < unat bd"
    using assms(3,4) by (simp_all add: word_less_nat_alt)
  have "N div unat bd = unat bi" unfolding N_def using lt by simp
  moreover have "N' div unat bd = unat bi'" unfolding N'_def using lt by simp
  ultimately have b: "unat bi = unat bi'" using e by simp
  have "N mod unat bd = unat ti" unfolding N_def using lt by simp
  moreover have "N' mod unat bd = unat ti'" unfolding N'_def using lt by simp
  ultimately have "unat ti = unat ti'" using e by simp
  with b show ?thesis by (simp add: word_unat_eq_iff)
qed


lemma thread_coord_in_launch:
  assumes "bi < gd" "ti < bd" "unat bd * unat gd \<le> 2 ^ 31"
  shows "unat bd * unat bi + unat ti < 2 ^ 31"
proof -
  have "unat bi + 1 \<le> unat gd" "unat ti < unat bd"
    using assms(1,2) by (simp_all add: word_less_nat_alt)
  then have "unat bd * unat bi + unat ti < unat bd * (unat bi + 1)" by simp
  also have "\<dots> \<le> unat bd * unat gd"
    using \<open>unat bi + 1 \<le> unat gd\<close> by (intro mult_left_mono) simp_all
  finally show ?thesis using assms(3) by linarith
qed

section \<open>The launch and the copy\<close>

text \<open>
  For a width up to \<open>2\<^sup>2\<^sup>4\<close> the grid computed by \<^verbatim>\<open>render\<close> is the ceiling of \<open>width / 32\<close>.
  The launch never faults; after it, every pixel of the image that some thread of the
  grid has as coordinates holds its colour. The copy moves every row.
\<close>

lemma float_of_int_exact:
  assumes "\<bar>k\<bar> \<le> 2 ^ 24"
  shows "float_of_int k = Fin (real_of_int k)"
proof (cases "\<bar>k\<bar> < 2 ^ 24")
  case True
  from scaled_int_is_f32[OF True, of 0] show ?thesis
    by (simp add: float_of_int_def is_f32_def)
next
  case False
  with assms have "k = 2 ^ 24 \<or> k = - (2 ^ 24)" by linarith
  then show ?thesis by (elim disjE) (simp_all add: float_of_int_def rnd32_eval)
qed

lemma div32_exact:
  assumes "0 \<le> w" "w \<le> 2 ^ 24"
  shows "rnd32 (real_of_int w / 32) = Fin (real_of_int w / 32)"
proof (cases "w < 2 ^ 24")
  case True
  then have "\<bar>w\<bar> < 2 ^ 24" using assms(1) by simp
  from scaled_int_is_f32[OF this, of 5] show ?thesis by (simp add: is_f32_def)
next
  case False
  with assms have "w = 2 ^ 24" by simp
  then show ?thesis by (simp add: rnd32_eval)
qed

lemma grid_dim_exact:
  assumes "0 \<le> w" "w \<le> 2 ^ 24"
  shows "grid_dim w = (w + 31) div 32"
proof -
  have c: "\<lceil>real_of_int w / 32\<rceil> = (w + 31) div 32"
  proof -
    have "real_of_int w / 32 = real_of_int w / real_of_int 32" by simp
    then have "\<lceil>real_of_int w / 32\<rceil> = - ((- w) div 32)"
      by (simp only: ceiling_divide_eq_div)
    also have "\<dots> = (w + 31) div 32" by linarith
    finally show ?thesis .
  qed
  have b: "0 \<le> (w + 31) div 32" "(w + 31) div 32 < 2 ^ 20" using assms by simp_all
  have f: "float_of_int w = Fin (real_of_int w)"
    using assms by (intro float_of_int_exact) simp
  have "grid_dim w = int_of_float (Fin (real_of_int ((w + 31) div 32)))"
    by (simp add: grid_dim_def Let_def f float_of_int_small div32_exact[OF assms] fceil_def c)
  also have "\<dots> = (w + 31) div 32"
  proof -
    have "real_of_int ((w + 31) div 32) < 2 ^ 31" "- (2 ^ 31) - 1 < real_of_int ((w + 31) div 32)"
      using b by (simp_all add: of_int_less_numeral_power_cancel_iff)
    then show ?thesis using b(1) by (simp add: int_of_float_def trunc_real_def)
  qed
  finally show ?thesis .
qed

lemma mykernel_returns: "\<exists>m'. mykernel m width height pitch bd bi ti = Inr m'"
proof -
  let ?x = "thread_coord (dim_x bd) (dim_x bi) (dim_x ti)"
  let ?y = "thread_coord (dim_y bd) (dim_y bi) (dim_y ti)"
  have k: "mykernel m width height pitch bd bi ti = kernel_body m width height pitch ?x ?y"
    by (simp add: mykernel_def Let_def)
  show ?thesis
  proof (cases "width \<le> ?x \<or> height \<le> ?y")
    case True
    then show ?thesis unfolding k by (simp add: kernel_body_outside)
  next
    case False
    then have "?x < width" "?y < height" by simp_all
    from kernel_body_inside[OF this] show ?thesis unfolding k by blast
  qed
qed

lemma fold_run_thread_returns:
  assumes "\<And>t m. \<exists>m'. k t m = Inr m'"
  shows "\<exists>m'. fold (\<lambda>t. run_thread (k t)) ts (Inr m) = Inr m'"
proof (induction ts arbitrary: m)
  case Nil
  show ?case by simp
next
  case (Cons t ts)
  from assms obtain m1 where "k t m = Inr m1" by blast
  then have "run_thread (k t) (Inr m) = Inr m1" by (simp add: run_thread_def)
  with Cons[of m1] show ?case by simp
qed

lemma launch_returns:
  "\<exists>dev. launch dimGrid dimBlock (\<lambda>bd bi ti m. mykernel m width height pitch bd bi ti) m = Inr dev"
proof -
  have "launch dimGrid dimBlock (\<lambda>bd bi ti m. mykernel m width height pitch bd bi ti) m =
        fold (\<lambda>t. run_thread (\<lambda>m. mykernel m width height pitch dimBlock (fst t) (snd t)))
          (threads dimGrid dimBlock) (Inr m)"
    unfolding launch_def by (simp add: case_prod_unfold)
  moreover have "\<exists>m'. fold (\<lambda>t. run_thread (\<lambda>m. mykernel m width height pitch dimBlock (fst t) (snd t)))
          (threads dimGrid dimBlock) (Inr m) = Inr m'"
    by (rule fold_run_thread_returns) (rule mykernel_returns)
  ultimately show ?thesis by simp
qed

lemma copy_row:
  "fold (\<lambda>c d'. d'(base + int c := f c)) [0 ..< n] d a =
     (if base \<le> a \<and> a < base + int n then f (nat (a - base)) else d a)"
proof (induction n)
  case 0
  show ?case by auto
next
  case (Suc n)
  show ?case
  proof (cases "a = base + int n")
    case True
    then show ?thesis by simp
  next
    case False
    then show ?thesis using Suc by auto
  qed
qed

lemma cudaMemcpy2D_rows:
  assumes "int n \<le> dp" "r < h" "c < n"
  shows "cudaMemcpy2D dst dp src sp n h (int r * dp + int c) = src (int r * sp + int c)"
  using assms(2)
proof (induction h)
  case 0
  then show ?case by simp
next
  case (Suc h)
  let ?row = "\<lambda>r d. fold (\<lambda>c d'. d'(int r * dp + int c := src (int r * sp + int c))) [0 ..< n] d"
  have step: "cudaMemcpy2D dst dp src sp n (Suc h) = ?row h (cudaMemcpy2D dst dp src sp n h)"
    by (simp add: cudaMemcpy2D_def)
  show ?case
  proof (cases "r = h")
    case True
    show ?thesis unfolding step True using assms(3) by (simp add: copy_row)
  next
    case False
    then have rh: "r < h" using Suc.prems by simp
    then have "int r + 1 \<le> int h" by simp
    then have "(int r + 1) * dp \<le> int h * dp"
      using assms(1) by (intro mult_right_mono) simp_all
    then have "int r * dp + int c < int h * dp"
      using assms(1,3) by (simp add: algebra_simps)
    then show ?thesis unfolding step using Suc.IH[OF rh] by (simp add: copy_row)
  qed
qed

lemma row_bytes_of_width:
  assumes "0 \<le> width" "width < 2 ^ 31"
  shows "unat (size_t_of_int width * 4) = nat (4 * width)"
proof -
  have "uint (word_of_int width * 4 :: 64 word) = (width * 4) mod 2 ^ 64"
    by (simp add: uint_word_arith_bintrs take_bit_eq_mod uint_word_of_int mod_mult_left_eq)
  also have "\<dots> = width * 4" using assms by simp
  finally show ?thesis unfolding size_t_of_int_def by (simp add: unat_eq_nat_uint algebra_simps)
qed

lemma rows_of_height:
  assumes "0 \<le> height" "height < 2 ^ 31"
  shows "unat (size_t_of_int height) = nat height"
proof -
  have "uint (word_of_int height :: 64 word) = height mod 2 ^ 64"
    by (simp add: uint_word_of_int take_bit_eq_mod)
  also have "\<dots> = height" using assms by simp
  finally show ?thesis unfolding size_t_of_int_def by (simp add: unat_eq_nat_uint)
qed


lemma store_pixel_nth:
  "j < 4 \<Longrightarrow> store_pixel m off c (off + int j) = [r_chan c, g_chan c, b_chan c, a_chan c] ! j"
proof -
  assume "j < 4"
  then consider "j = 0" | "j = 1" | "j = 2" | "j = 3" by linarith
  then show ?thesis by cases (simp_all add: store_pixel_def)
qed

lemma kernel_body_eq:
  "kernel_body m w h p x y =
     Inr (if w \<le> x \<or> h \<le> y then m
          else store_pixel m (y * int p + 4 * x) (projr (pixel_color x y w h)))"
proof -
  from pixel_color_returns obtain c where "pixel_color x y w h = Inr c" ..
  then show ?thesis by (simp add: kernel_body_def Let_def)
qed

lemma run_threads_fold:
  "fold (\<lambda>(bi, ti). run_thread (\<lambda>m. mykernel m w h p bd bi ti)) ts (Inr m) =
   Inr (fold (\<lambda>(bi, ti) m. projr (mykernel m w h p bd bi ti)) ts m)"
proof (induction ts arbitrary: m)
  case Nil
  show ?case by simp
next
  case (Cons t ts)
  obtain bi ti where t: "t = (bi, ti)" by (cases t)
  from mykernel_returns obtain m1 where m1: "mykernel m w h p bd bi ti = Inr m1" by blast
  show ?case using Cons[of m1] by (simp add: t run_thread_def m1)
qed

lemma fold_threads_pixel:
  fixes x y w h :: int and p j :: nat
  assumes nonneg: "\<forall>(bi, ti) \<in> set ts.
        0 \<le> thread_coord (dim_x bd) (dim_x bi) (dim_x ti)
      \<and> 0 \<le> thread_coord (dim_y bd) (dim_y bi) (dim_y ti)"
    and p: "4 * w \<le> int p"
    and xy: "0 \<le> x" "x < w" "0 \<le> y" "y < h" and j: "j < 4"
  shows "fold (\<lambda>(bi, ti) m. projr (mykernel m w h p bd bi ti)) ts m (y * int p + 4 * x + int j) =
     (if \<exists>(bi, ti) \<in> set ts. thread_coord (dim_x bd) (dim_x bi) (dim_x ti) = x
                              \<and> thread_coord (dim_y bd) (dim_y bi) (dim_y ti) = y
      then [r_chan (projr (pixel_color x y w h)), g_chan (projr (pixel_color x y w h)),
            b_chan (projr (pixel_color x y w h)), a_chan (projr (pixel_color x y w h))] ! j
      else m (y * int p + 4 * x + int j))"
  using nonneg
proof (induction ts arbitrary: m)
  case Nil
  show ?case by simp
next
  case (Cons t ts)
  obtain bi ti where t: "t = (bi, ti)" by (cases t)
  let ?x = "thread_coord (dim_x bd) (dim_x bi) (dim_x ti)"
  let ?y = "thread_coord (dim_y bd) (dim_y bi) (dim_y ti)"
  let ?a = "y * int p + 4 * x + int j"
  let ?c = "[r_chan (projr (pixel_color x y w h)), g_chan (projr (pixel_color x y w h)),
            b_chan (projr (pixel_color x y w h)), a_chan (projr (pixel_color x y w h))] ! j"
  define m1 where "m1 = projr (mykernel m w h p bd bi ti)"
  have pos: "0 \<le> ?x" "0 \<le> ?y" using Cons.prems by (simp_all add: t)
  have rest: "\<forall>(bi, ti) \<in> set ts.
        0 \<le> thread_coord (dim_x bd) (dim_x bi) (dim_x ti)
      \<and> 0 \<le> thread_coord (dim_y bd) (dim_y bi) (dim_y ti)" using Cons.prems by simp
  have m1: "m1 = (if w \<le> ?x \<or> h \<le> ?y then m
                  else store_pixel m (?y * int p + 4 * ?x) (projr (pixel_color ?x ?y w h)))"
    unfolding m1_def by (simp add: mykernel_def Let_def kernel_body_eq)
  have here: "m1 ?a = (if ?x = x \<and> ?y = y then ?c else m ?a)"
  proof (cases "?x = x \<and> ?y = y")
    case True
    then show ?thesis unfolding m1 using xy store_pixel_nth[OF j, of m "y * int p + 4 * x"]
      by simp
  next
    case False
    have "m1 ?a = m ?a"
    proof (cases "w \<le> ?x \<or> h \<le> ?y")
      case True
      then show ?thesis unfolding m1 by (simp only: if_True)
    next
      case inside: False
      then have "?x < w" by simp
      from pixel_slots_disjoint[OF pos(1) this pos(2) xy(1,2,3) p] False
      have "y * int p + 4 * x + 3 < ?y * int p + 4 * ?x
            \<or> ?y * int p + 4 * ?x + 3 < y * int p + 4 * x" by blast
      then have "?a < ?y * int p + 4 * ?x \<or> ?y * int p + 4 * ?x + 3 < ?a" using j by linarith
      then show ?thesis unfolding m1 by (simp only: inside if_False store_pixel_elsewhere)
    qed
    then show ?thesis by (simp only: False if_False)
  qed
  have "fold (\<lambda>(bi, ti) m. projr (mykernel m w h p bd bi ti)) (t # ts) m ?a =
        fold (\<lambda>(bi, ti) m. projr (mykernel m w h p bd bi ti)) ts m1 ?a"
    by (simp add: t m1_def)
  also have "\<dots> = (if \<exists>(bi, ti) \<in> set ts. thread_coord (dim_x bd) (dim_x bi) (dim_x ti) = x
                              \<and> thread_coord (dim_y bd) (dim_y bi) (dim_y ti) = y
      then ?c else m1 ?a)"
    by (rule Cons.IH[OF rest])
  finally show ?case unfolding here by (auto simp add: t)
qed


lemma unat_of_nat_small: "n < 2 ^ 32 \<Longrightarrow> unat (of_nat n :: 32 word) = n"
  by (simp add: unat_of_nat take_bit_nat_eq_self)

lemma of_nat_less_word:
  fixes gx :: "32 word"
  assumes "n < unat gx" shows "of_nat n < gx"
proof -
  have "unat gx < 2 ^ 32" using unsigned_less[of gx] by simp
  then have "n < 2 ^ 32" using assms by linarith
  then have "unat (of_nat n :: 32 word) = n" by (rule unat_of_nat_small)
  then show ?thesis using assms by (simp add: word_less_nat_alt)
qed

lemma threads_in_launch:
  assumes "(bi, ti) \<in> set (threads gd bd)" shows "in_launch gd bd bi ti"
  using assms unfolding threads_def in_launch_def by (auto intro: of_nat_less_word)

lemma threads_member:
  assumes "bx < unat (dim_x gd)" "by < unat (dim_y gd)" "tx < unat (dim_x bd)" "ty < unat (dim_y bd)"
  shows "(\<lparr>dim_x = of_nat bx, dim_y = of_nat by\<rparr>, \<lparr>dim_x = of_nat tx, dim_y = of_nat ty\<rparr>)
           \<in> set (threads gd bd)"
proof -
  have "by \<in> {0 ..< unat (dim_y gd)}" "bx \<in> {0 ..< unat (dim_x gd)}"
    "ty \<in> {0 ..< unat (dim_y bd)}" "tx \<in> {0 ..< unat (dim_x bd)}" using assms by simp_all
  then show ?thesis
    unfolding threads_def
    by (simp del: atLeastLessThan_iff)
       (intro bexI[of _ "by"] bexI[of _ bx] bexI[of _ ty] image_eqI[of _ _ tx] refl)
qed

lemma thread_coord_of_nat:
  assumes "0 \<le> x" "x < 2 ^ 31"
  shows "thread_coord 32 (of_nat (nat x div 32)) (of_nat (nat x mod 32)) = x"
proof -
  have b: "nat x div 32 < 2 ^ 32" "nat x mod 32 < 2 ^ 32" using assms by simp_all
  have u: "unat (of_nat (nat x div 32) :: 32 word) = nat x div 32"
    "unat (of_nat (nat x mod 32) :: 32 word) = nat x mod 32"
    using b by (simp_all only: unat_of_nat_small)
  have "unat (32 :: 32 word) * unat (of_nat (nat x div 32) :: 32 word)
        + unat (of_nat (nat x mod 32) :: 32 word) = nat x"
    unfolding u by simp
  moreover have "nat x < 2 ^ 31" using assms by simp
  ultimately show ?thesis using assms(1) by (simp add: thread_coord_nowrap)
qed


lemma grid_word:
  assumes "0 \<le> w" "w \<le> 2 ^ 24"
  shows "unat (word_of_int (grid_dim w) :: 32 word) = nat ((w + 31) div 32)"
proof -
  have b: "0 \<le> (w + 31) div 32" "(w + 31) div 32 < 2 ^ 32" using assms by simp_all
  have "uint (word_of_int ((w + 31) div 32) :: 32 word) = ((w + 31) div 32) mod 2 ^ 32"
    by (simp add: uint_word_of_int)
  also have "\<dots> = (w + 31) div 32" using b by simp
  finally show ?thesis unfolding grid_dim_exact[OF assms] by (simp add: unat_eq_nat_uint)
qed

lemma launch_pixels:
  fixes x y w h :: int and p j :: nat
  assumes w: "0 \<le> w" "w \<le> 2 ^ 24" and h: "0 \<le> h" "h \<le> 2 ^ 24" and p: "4 * w \<le> int p"
    and xy: "0 \<le> x" "x < w" "0 \<le> y" "y < h" and j: "j < 4"
    and l: "launch \<lparr>dim_x = word_of_int (grid_dim w), dim_y = word_of_int (grid_dim h)\<rparr>
              \<lparr>dim_x = 32, dim_y = 32\<rparr> (\<lambda>bd bi ti m. mykernel m w h p bd bi ti) m = Inr dev"
  shows "\<exists>color. pixel_color x y w h = Inr color
           \<and> dev (y * int p + 4 * x + int j) = [r_chan color, g_chan color, b_chan color, a_chan color] ! j"
proof -
  let ?gd = "\<lparr>dim_x = word_of_int (grid_dim w) :: 32 word, dim_y = word_of_int (grid_dim h)\<rparr>"
  let ?bd = "\<lparr>dim_x = 32 :: 32 word, dim_y = 32\<rparr>"
  let ?ts = "threads ?gd ?bd"
  have gx: "unat (dim_x ?gd) = nat ((w + 31) div 32)" and gy: "unat (dim_y ?gd) = nat ((h + 31) div 32)"
    using grid_word[OF w] grid_word[OF h] by simp_all
  have lx: "unat (dim_x ?bd) * unat (dim_x ?gd) \<le> 2 ^ 31"
    and ly: "unat (dim_y ?bd) * unat (dim_y ?gd) \<le> 2 ^ 31"
    unfolding gx gy using w h by simp_all
  have nonneg: "\<forall>(bi, ti) \<in> set ?ts.
        0 \<le> thread_coord (dim_x ?bd) (dim_x bi) (dim_x ti)
      \<and> 0 \<le> thread_coord (dim_y ?bd) (dim_y bi) (dim_y ti)"
  proof (clarify, intro conjI)
    fix bi ti assume "(bi, ti) \<in> set ?ts"
    then have il: "in_launch ?gd ?bd bi ti" by (rule threads_in_launch)
    have "unat (dim_x ?bd) * unat (dim_x bi) + unat (dim_x ti) < 2 ^ 31"
      using il unfolding in_launch_def by (intro thread_coord_in_launch[OF _ _ lx]) simp_all
    then show "0 \<le> thread_coord (dim_x ?bd) (dim_x bi) (dim_x ti)"
      by (simp only: thread_coord_nowrap of_nat_0_le_iff)
    have "unat (dim_y ?bd) * unat (dim_y bi) + unat (dim_y ti) < 2 ^ 31"
      using il unfolding in_launch_def by (intro thread_coord_in_launch[OF _ _ ly]) simp_all
    then show "0 \<le> thread_coord (dim_y ?bd) (dim_y bi) (dim_y ti)"
      by (simp only: thread_coord_nowrap of_nat_0_le_iff)
  qed
  let ?bi = "\<lparr>dim_x = of_nat (nat x div 32) :: 32 word, dim_y = of_nat (nat y div 32)\<rparr>"
  let ?ti = "\<lparr>dim_x = of_nat (nat x mod 32) :: 32 word, dim_y = of_nat (nat y mod 32)\<rparr>"
  have cover: "nat a div 32 < nat ((b + 31) div 32)" if "0 \<le> a" "a < b" for a b :: int
  proof -
    have "a div 32 \<le> (b - 1) div 32" using that(2) by (intro zdiv_mono1) simp_all
    moreover have "(b - 1 + 32) div 32 = (b - 1) div 32 + 1" by (rule div_add_self2) simp
    moreover have "b - 1 + 32 = b + 31" by simp
    ultimately have lt: "a div 32 < (b + 31) div 32" by simp
    have "0 \<le> a div 32" using that(1) by simp
    moreover have "nat a div 32 = nat (a div 32)" using that(1) by (simp add: nat_div_distrib)
    ultimately show ?thesis using lt by (simp only: nat_less_eq_zless)
  qed
  have "nat x div 32 < nat ((w + 31) div 32)" "nat y div 32 < nat ((h + 31) div 32)"
    using cover[OF xy(1,2)] cover[OF xy(3,4)] by blast+
  then have mem: "(?bi, ?ti) \<in> set ?ts"
    by (intro threads_member) (simp_all add: grid_word[OF w] grid_word[OF h])
  have small: "x < 2 ^ 31" "y < 2 ^ 31" using xy w h by simp_all
  have cx: "thread_coord (dim_x ?bd) (dim_x ?bi) (dim_x ?ti) = x"
    unfolding dim3.simps by (rule thread_coord_of_nat[OF xy(1) small(1)])
  have cy: "thread_coord (dim_y ?bd) (dim_y ?bi) (dim_y ?ti) = y"
    unfolding dim3.simps by (rule thread_coord_of_nat[OF xy(3) small(2)])
  have ex: "\<exists>(bi, ti) \<in> set ?ts. thread_coord (dim_x ?bd) (dim_x bi) (dim_x ti) = x
                              \<and> thread_coord (dim_y ?bd) (dim_y bi) (dim_y ti) = y"
    using mem cx cy by blast
  have "launch ?gd ?bd (\<lambda>bd bi ti m. mykernel m w h p bd bi ti) m =
        Inr (fold (\<lambda>(bi, ti) m. projr (mykernel m w h p ?bd bi ti)) ?ts m)"
    unfolding launch_def by (rule run_threads_fold)
  with l have dev: "dev = fold (\<lambda>(bi, ti) m. projr (mykernel m w h p ?bd bi ti)) ?ts m" by simp
  from pixel_color_returns obtain color where c: "pixel_color x y w h = Inr color" ..
  have "dev (y * int p + 4 * x + int j) =
        [r_chan (projr (pixel_color x y w h)), g_chan (projr (pixel_color x y w h)),
         b_chan (projr (pixel_color x y w h)), a_chan (projr (pixel_color x y w h))] ! j"
    unfolding dev fold_threads_pixel[OF nonneg p xy j] using ex by (simp only: if_True)
  then show ?thesis using c by simp
qed

lemma pixel_color_0_0_4_2: "pixel_color 0 0 4 2 = Inr (rgba 0 8 255 255)"
  by (simp add: pixel_color_def escape_count_0_0_4_2 f32_eval)

lemma pixel_color_0_0_1_1: "pixel_color 0 0 1 1 = Inr (rgba 0 8 255 255)"
  by (simp add: pixel_color_def escape_count_def pixel_re_def pixel_im_def f32_eval
      mandel_loop_step mandel_loop_stop)

text \<open>
  \<^verbatim>\<open>render\<close> ends in one of five ways: a non-zero result of the allocation, of the check
  after the launch, of the copy or of the release ends the process with the message of
  that step; otherwise the call returns with every row copied, and for sides up to \<open>2\<^sup>2\<^sup>4\<close>
  every pixel of the host buffer holds its colour.
\<close>

lemma render_outcomes:
  assumes "0 \<le> width" "width < 2 ^ 31" "0 \<le> height" "height < 2 ^ 31" "4 * width \<le> stride"
  shows "(malloc_rc env \<noteq> 0
          \<and> render hostBuffer width height stride n_iterations env = Exited ''Fail buffer allocation'')
       \<or> (malloc_rc env = 0 \<and> launch_rc env \<noteq> 0
          \<and> render hostBuffer width height stride n_iterations env = Exited ''Computation Error'')
       \<or> (malloc_rc env = 0 \<and> launch_rc env = 0 \<and> memcpy_rc env \<noteq> 0
          \<and> render hostBuffer width height stride n_iterations env =
              Exited ''Unable to copy buffer back to memory'')
       \<or> (malloc_rc env = 0 \<and> launch_rc env = 0 \<and> memcpy_rc env = 0 \<and> free_rc env \<noteq> 0
          \<and> render hostBuffer width height stride n_iterations env = Exited ''Unable to free memory'')
       \<or> (malloc_rc env = 0 \<and> launch_rc env = 0 \<and> memcpy_rc env = 0 \<and> free_rc env = 0
          \<and> (\<exists>dev hostBuffer'.
                launch \<lparr>dim_x = word_of_int (grid_dim width), dim_y = word_of_int (grid_dim height)\<rparr>
                  \<lparr>dim_x = 32, dim_y = 32\<rparr>
                  (\<lambda>bd bi ti m. mykernel m width height (malloc_pitch env) bd bi ti)
                  (malloc_mem env) = Inr dev
              \<and> render hostBuffer width height stride n_iterations env = Returned hostBuffer'
              \<and> (\<forall>r c. r < nat height \<and> c < nat (4 * width) \<longrightarrow>
                    hostBuffer' (int r * stride + int c) =
                    dev (int r * int (malloc_pitch env) + int c))
              \<and> (width \<le> 2 ^ 24 \<and> height \<le> 2 ^ 24 \<and> 4 * width \<le> int (malloc_pitch env) \<longrightarrow>
                  (\<forall>x y j. 0 \<le> x \<and> x < width \<and> 0 \<le> y \<and> y < height \<and> j < 4 \<longrightarrow>
                    (\<exists>color. pixel_color x y width height = Inr color
                      \<and> hostBuffer' (y * stride + 4 * x + int j) =
                          [r_chan color, g_chan color, b_chan color, a_chan color] ! j)))))"
proof -
  let ?launch = "launch \<lparr>dim_x = word_of_int (grid_dim width), dim_y = word_of_int (grid_dim height)\<rparr>
                  \<lparr>dim_x = 32, dim_y = 32\<rparr>
                  (\<lambda>bd bi ti m. mykernel m width height (malloc_pitch env) bd bi ti)
                  (malloc_mem env)"
  from launch_returns obtain dev where dev: "?launch = Inr dev" by blast
  let ?hb = "cudaMemcpy2D hostBuffer stride dev (int (malloc_pitch env)) (nat (4 * width)) (nat height)"
  have copy: "?hb (int r * stride + int c) = dev (int r * int (malloc_pitch env) + int c)"
    if "r < nat height" "c < nat (4 * width)" for r c
    using assms(1,5) that by (intro cudaMemcpy2D_rows) simp_all
  have pixels: "\<exists>color. pixel_color x y width height = Inr color
                      \<and> ?hb (y * stride + 4 * x + int j) =
                          [r_chan color, g_chan color, b_chan color, a_chan color] ! j"
    if small: "width \<le> 2 ^ 24" "height \<le> 2 ^ 24" "4 * width \<le> int (malloc_pitch env)"
      and xy: "0 \<le> x" "x < width" "0 \<le> y" "y < height" and j: "j < 4" for x y j
  proof -
    from launch_pixels[OF assms(1) small(1) assms(3) small(2,3) xy j dev]
    obtain color where c: "pixel_color x y width height = Inr color"
      "dev (y * int (malloc_pitch env) + 4 * x + int j) =
         [r_chan color, g_chan color, b_chan color, a_chan color] ! j" by blast
    have "nat y < nat height" "nat (4 * x) + j < nat (4 * width)" using xy j by linarith+
    note cp = copy[OF this]
    have e: "int (nat y) = y" "int (nat (4 * x) + j) = 4 * x + int j" using xy by simp_all
    have "?hb (y * stride + 4 * x + int j) =
        dev (y * int (malloc_pitch env) + 4 * x + int j)"
      using cp unfolding e by (simp only: add.assoc)
    with c show ?thesis by simp
  qed
  have r: "render hostBuffer width height stride n_iterations env =
      (if malloc_rc env \<noteq> 0 then Exited ''Fail buffer allocation''
       else if launch_rc env \<noteq> 0 then Exited ''Computation Error''
       else if memcpy_rc env \<noteq> 0 then Exited ''Unable to copy buffer back to memory''
       else if free_rc env \<noteq> 0 then Exited ''Unable to free memory''
       else Returned ?hb)"
    by (simp add: render_def Let_def abortError_def dev
        row_bytes_of_width[OF assms(1,2)] rows_of_height[OF assms(3,4)])
  have copy': "\<forall>r c. r < nat height \<and> c < nat (4 * width) \<longrightarrow>
                    ?hb (int r * stride + int c) = dev (int r * int (malloc_pitch env) + int c)"
    using copy by blast
  have pixels': "width \<le> 2 ^ 24 \<and> height \<le> 2 ^ 24 \<and> 4 * width \<le> int (malloc_pitch env) \<longrightarrow>
                  (\<forall>x y j. 0 \<le> x \<and> x < width \<and> 0 \<le> y \<and> y < height \<and> j < 4 \<longrightarrow>
                    (\<exists>color. pixel_color x y width height = Inr color
                      \<and> ?hb (y * stride + 4 * x + int j) =
                          [r_chan color, g_chan color, b_chan color, a_chan color] ! j))"
    using pixels by blast
  consider "malloc_rc env \<noteq> 0"
    | "malloc_rc env = 0" "launch_rc env \<noteq> 0"
    | "malloc_rc env = 0" "launch_rc env = 0" "memcpy_rc env \<noteq> 0"
    | "malloc_rc env = 0" "launch_rc env = 0" "memcpy_rc env = 0" "free_rc env \<noteq> 0"
    | "malloc_rc env = 0" "launch_rc env = 0" "memcpy_rc env = 0" "free_rc env = 0"
    by blast
  then show ?thesis
  proof cases
    case 1
    then show ?thesis by (simp add: r)
  next
    case 2
    then show ?thesis by (simp add: r)
  next
    case 3
    then show ?thesis by (simp add: r)
  next
    case 4
    then show ?thesis by (simp add: r)
  next
    case 5
    then have ret: "render hostBuffer width height stride n_iterations env = Returned ?hb"
      by (simp add: r)
    have "\<exists>dev hostBuffer'. ?launch = Inr dev
              \<and> render hostBuffer width height stride n_iterations env = Returned hostBuffer'
              \<and> (\<forall>r c. r < nat height \<and> c < nat (4 * width) \<longrightarrow>
                    hostBuffer' (int r * stride + int c) =
                    dev (int r * int (malloc_pitch env) + int c))
              \<and> (width \<le> 2 ^ 24 \<and> height \<le> 2 ^ 24 \<and> 4 * width \<le> int (malloc_pitch env) \<longrightarrow>
                  (\<forall>x y j. 0 \<le> x \<and> x < width \<and> 0 \<le> y \<and> y < height \<and> j < 4 \<longrightarrow>
                    (\<exists>color. pixel_color x y width height = Inr color
                      \<and> hostBuffer' (y * stride + 4 * x + int j) =
                          [r_chan color, g_chan color, b_chan color, a_chan color] ! j)))"
      by (intro exI[of _ dev] exI[of _ ?hb] conjI dev ret copy' pixels')
    with 5 show ?thesis by (simp only: simp_thms)
  qed
qed

text \<open>
  With a width of \<open>2\<^sup>2\<^sup>4 + 1\<close> the grid is one block short, and no thread of the launch has
  the last column as its coordinate: the bytes of that pixel stay as the allocation left
  them.
\<close>

lemma pixel_color_last_column: "pixel_color 16777216 0 16777217 1 = Inr (rgba 0 20 255 255)"
  by (simp add: pixel_color_def escape_count_def pixel_re_def pixel_im_def f32_eval
      mandel_loop_step mandel_loop_stop)

lemma grid_dim_16777217: "grid_dim 16777217 = 524288"
  by (simp add: grid_dim_def fceil_def int_of_float_def f32_eval)

lemma launch_misses_last_column:
  fixes p j :: nat
  assumes p: "4 * 16777217 \<le> int p" and j: "j < 4"
    and l: "launch \<lparr>dim_x = word_of_int (grid_dim 16777217), dim_y = word_of_int (grid_dim 1)\<rparr>
              \<lparr>dim_x = 32, dim_y = 32\<rparr> (\<lambda>bd bi ti m. mykernel m 16777217 1 p bd bi ti) m = Inr dev"
  shows "dev (4 * 16777216 + int j) = m (4 * 16777216 + int j)"
proof -
  let ?gd = "\<lparr>dim_x = word_of_int (grid_dim 16777217) :: 32 word, dim_y = word_of_int (grid_dim 1)\<rparr>"
  let ?bd = "\<lparr>dim_x = 32 :: 32 word, dim_y = 32\<rparr>"
  let ?ts = "threads ?gd ?bd"
  have gx: "unat (dim_x ?gd) = 524288" by (simp add: grid_dim_16777217)
  have gy: "unat (dim_y ?gd) = 1" using grid_word[of 1] by simp
  have lx: "unat (dim_x ?bd) * unat (dim_x ?gd) \<le> 2 ^ 31"
    and ly: "unat (dim_y ?bd) * unat (dim_y ?gd) \<le> 2 ^ 31"
    unfolding gx gy by simp_all
  have coords: "0 \<le> thread_coord (dim_x ?bd) (dim_x bi) (dim_x ti)
              \<and> thread_coord (dim_x ?bd) (dim_x bi) (dim_x ti) < 16777216
              \<and> 0 \<le> thread_coord (dim_y ?bd) (dim_y bi) (dim_y ti)"
    if "(bi, ti) \<in> set ?ts" for bi ti
  proof -
    from that have il: "in_launch ?gd ?bd bi ti" by (rule threads_in_launch)
    have nx: "unat (dim_x ?bd) * unat (dim_x bi) + unat (dim_x ti) < 2 ^ 31"
      using il unfolding in_launch_def by (intro thread_coord_in_launch[OF _ _ lx]) simp_all
    have ny: "unat (dim_y ?bd) * unat (dim_y bi) + unat (dim_y ti) < 2 ^ 31"
      using il unfolding in_launch_def by (intro thread_coord_in_launch[OF _ _ ly]) simp_all
    have "unat (dim_x bi) < 524288" "unat (dim_x ti) < 32"
      using il gx unfolding in_launch_def by (simp_all add: word_less_nat_alt)
    then have "unat (dim_x ?bd) * unat (dim_x bi) + unat (dim_x ti) < 16777216" by simp
    then have "thread_coord (dim_x ?bd) (dim_x bi) (dim_x ti) < 16777216"
      unfolding thread_coord_nowrap[OF nx] by linarith
    moreover have "0 \<le> thread_coord (dim_x ?bd) (dim_x bi) (dim_x ti)"
      unfolding thread_coord_nowrap[OF nx] by simp
    moreover have "0 \<le> thread_coord (dim_y ?bd) (dim_y bi) (dim_y ti)"
      unfolding thread_coord_nowrap[OF ny] by simp
    ultimately show ?thesis by simp
  qed
  have nonneg: "\<forall>(bi, ti) \<in> set ?ts.
        0 \<le> thread_coord (dim_x ?bd) (dim_x bi) (dim_x ti)
      \<and> 0 \<le> thread_coord (dim_y ?bd) (dim_y bi) (dim_y ti)"
    using coords by blast
  have none: "\<not> (\<exists>(bi, ti) \<in> set ?ts. thread_coord (dim_x ?bd) (dim_x bi) (dim_x ti) = 16777216
                              \<and> thread_coord (dim_y ?bd) (dim_y bi) (dim_y ti) = 0)"
    using coords by fastforce
  have "launch ?gd ?bd (\<lambda>bd bi ti m. mykernel m 16777217 1 p bd bi ti) m =
        Inr (fold (\<lambda>(bi, ti) m. projr (mykernel m 16777217 1 p ?bd bi ti)) ?ts m)"
    unfolding launch_def by (rule run_threads_fold)
  with l have dev: "dev = fold (\<lambda>(bi, ti) m. projr (mykernel m 16777217 1 p ?bd bi ti)) ?ts m"
    by simp
  have xy: "(0::int) \<le> 16777216" "(16777216::int) < 16777217" "(0::int) \<le> 0" "(0::int) < 1"
    by simp_all
  have "dev (0 * int p + 4 * 16777216 + int j) = m (0 * int p + 4 * 16777216 + int j)"
    unfolding dev fold_threads_pixel[OF nonneg p xy j]
    using none by (simp only: if_False)
  then show ?thesis by simp
qed

section \<open>Claims\<close>

text \<open>
  C1. For a pixel inside an image whose sides are C \<^verbatim>\<open>int\<close>s, the count \<open>i\<close> left by the loop
  lies in \<open>[0, 100]\<close>, and it is the escape time of the recurrence started at \<open>(0, 0)\<close> for
  the mapped point: every earlier point of the sequence has \<open>mx*mx + my*my < 4\<close>, and the
  loop stopped either because \<open>i\<close> reached 100 or because \<open>mx*mx + my*my \<ge> 4\<close> at point
  \<open>i\<close>. The loop body runs once per increment of \<open>i\<close>, so at most 100 times.
\<close>

theorem escape_count_is_escape_time:
  assumes "0 \<le> x" "x < width" "width < 2 ^ 31" "0 \<le> y" "y < height" "height < 2 ^ 31"
  shows "0 \<le> escape_count x y width height \<and> escape_count x y width height \<le> 100
       \<and> (\<forall>k < nat (escape_count x y width height).
             flt (norm_sq (orbit (pixel_re x width) (pixel_im y height) k)) (Fin 4))
       \<and> (escape_count x y width height = 100
          \<or> fle (Fin 4) (norm_sq (orbit (pixel_re x width) (pixel_im y height)
                                     (nat (escape_count x y width height)))))"
proof -
  let ?i = "escape_count x y width height"
  let ?o = "orbit (pixel_re x width) (pixel_im y height)"
  from pixel_re_finite[OF assms(1-3)] obtain c where c: "pixel_re x width = Fin c" ..
  from pixel_im_finite[OF assms(4-6)] obtain d where d: "pixel_im y height = Fin d" ..
  have i: "?i = mandel_loop (pixel_re x width) (pixel_im y height) 100 (Fin 0) (Fin 0) 0"
    by (simp add: escape_count_def Let_def)
  have "orbit (pixel_re x width) (pixel_im y height) (nat 0) = (Fin 0, Fin 0)" by simp
  from mandel_loop_orbit[OF _ _ this, of 100, folded i]
  have run: "\<forall>k < nat ?i. flt (norm_sq (?o k)) (Fin 4)"
    and stop: "?i = 100 \<or> \<not> flt (norm_sq (?o (nat ?i))) (Fin 4)" by simp_all
  from orbit_not_nan[of "nat ?i" c d] run
  have "fst (?o (nat ?i)) \<noteq> NaN" "snd (?o (nat ?i)) \<noteq> NaN" by (simp_all add: c d)
  then have "norm_sq (?o (nat ?i)) \<noteq> NaN" unfolding norm_sq_def by (rule norm_sq_not_nan)
  with stop have "?i = 100 \<or> fle (Fin 4) (norm_sq (?o (nat ?i)))"
    using not_flt_imp_fle by blast
  with run escape_count_bounds[of x y width height] show ?thesis by blast
qed

theorem escape_count_is_escape_time_witness:
  "(0::int) \<le> 0 \<and> (0::int) < 4 \<and> (4::int) < 2 ^ 31 \<and> (0::int) < 2 \<and> (2::int) < 2 ^ 31
   \<and> escape_count 0 0 4 2 = 1
   \<and> flt (norm_sq (orbit (pixel_re 0 4) (pixel_im 0 2) 0)) (Fin 4)
   \<and> fle (Fin 4) (norm_sq (orbit (pixel_re 0 4) (pixel_im 0 2) 1))"
proof -
  note t = escape_count_is_escape_time[of 0 4 0 2, unfolded escape_count_0_0_4_2]
  have "flt (norm_sq (orbit (pixel_re 0 4) (pixel_im 0 2) 0)) (Fin 4)"
    using t by simp
  moreover have "fle (Fin 4) (norm_sq (orbit (pixel_re 0 4) (pixel_im 0 2) 1))"
    using t by simp
  ultimately show ?thesis using escape_count_0_0_4_2 by simp
qed

text \<open>
  C2, as the claim states it, fails in binary32. With \<open>a = a2 = 1\<close>, \<open>a1 = 0\<close>, \<open>min = 1\<close> and
  \<open>max = 2\<^sup>-\<^sup>3\<^sup>0\<close> the difference \<open>min - max\<close> rounds to 1 and the result is 0, not \<open>max\<close>.
\<close>

theorem clamp_loses_the_upper_bound:
  "is_f32 0 \<and> is_f32 1 \<and> is_f32 (1 / 2 ^ 30)
   \<and> clamp (Fin 1) (Fin 0) (Fin 1) (Fin 1) (Fin (1 / 2 ^ 30)) = Fin 0
   \<and> clamp (Fin 1) (Fin 0) (Fin 1) (Fin 1) (Fin (1 / 2 ^ 30)) \<noteq> Fin (1 / 2 ^ 30)"
  by (simp add: is_f32_def f32_eval)

text \<open>
  C2, amended. For binary32 inputs with \<open>a1 \<noteq> a2\<close> whose differences \<open>a1 - a2\<close> and
  \<open>min - max\<close> do not overflow: mapping \<open>a = a1\<close> yields exactly \<open>min\<close>; mapping \<open>a = a2\<close>
  yields \<open>max - min\<close> rounded, plus \<open>min\<close>, rounded, which is exactly \<open>max\<close> when \<open>max - min\<close>
  is a binary32 number; and whenever none of the five operations rounds, the result is
  exactly \<open>((a - a1) / (a1 - a2)) * (min - max) + min\<close>, also for \<open>a\<close> outside \<open>[a1, a2)\<close>.
\<close>

theorem clamp_endpoints:
  assumes a1: "is_f32 a1" and a2: "is_f32 a2" and lo: "is_f32 lo" and hi: "is_f32 hi"
    and ne: "a1 \<noteq> a2" and d: "rnd32 (a1 - a2) = Fin d" and s: "rnd32 (lo - hi) = Fin s"
  shows "clamp (Fin a1) (Fin a1) (Fin a2) (Fin lo) (Fin hi) = Fin lo
       \<and> clamp (Fin a2) (Fin a1) (Fin a2) (Fin lo) (Fin hi) = rnd32 (rnd_val (hi - lo) + lo)
       \<and> (is_f32 (hi - lo) \<longrightarrow> clamp (Fin a2) (Fin a1) (Fin a2) (Fin lo) (Fin hi) = Fin hi)
       \<and> (\<forall>a. is_f32 (a - a1) \<and> is_f32 (a1 - a2) \<and> is_f32 ((a - a1) / (a1 - a2))
              \<and> is_f32 (lo - hi) \<and> is_f32 ((a - a1) / (a1 - a2) * (lo - hi))
              \<and> is_f32 ((a - a1) / (a1 - a2) * (lo - hi) + lo)
            \<longrightarrow> clamp (Fin a) (Fin a1) (Fin a2) (Fin lo) (Fin hi) =
                Fin ((a - a1) / (a1 - a2) * (lo - hi) + lo))"
proof -
  have dv: "d = rnd_val (a1 - a2)" using d by (rule rnd32_Fin_rnd_val)
  have sv: "s = rnd_val (lo - hi)" using s by (rule rnd32_Fin_rnd_val)
  have d0: "d \<noteq> 0" unfolding dv using a1 a2 ne by (rule rnd_val_diff_nonzero)
  have md: "rnd32 (a2 - a1) = Fin (- d)"
    using rnd32_minus[of "a1 - a2"] by (simp add: d)
  have ms: "rnd32 (- s) = Fin (- s)"
    using rnd32_is_f32[OF s] by (intro rnd32_is_f32_eq is_f32_minus)
  have rlo: "rnd32 lo = Fin lo" using lo by (rule rnd32_is_f32_eq)
  have one: "clamp (Fin a1) (Fin a1) (Fin a2) (Fin lo) (Fin hi) = Fin lo"
    using d0 by (simp add: clamp_unfold fsub_Fin d s rnd32_zero rlo)
  have "clamp (Fin a2) (Fin a1) (Fin a2) (Fin lo) (Fin hi) = rnd32 (- s + lo)"
    using d0 by (simp add: clamp_unfold fsub_Fin d md s rnd32_minus_one ms)
  moreover have "- s = rnd_val (hi - lo)"
    unfolding sv using rnd_val_minus[of "lo - hi"] by simp
  ultimately have two:
    "clamp (Fin a2) (Fin a1) (Fin a2) (Fin lo) (Fin hi) = rnd32 (rnd_val (hi - lo) + lo)"
    by simp
  have three: "clamp (Fin a2) (Fin a1) (Fin a2) (Fin lo) (Fin hi) = Fin hi" if "is_f32 (hi - lo)"
    unfolding two is_f32_rnd_val[OF that] using hi by (simp add: rnd32_is_f32_eq)
  have four: "clamp (Fin a) (Fin a1) (Fin a2) (Fin lo) (Fin hi) =
                Fin ((a - a1) / (a1 - a2) * (lo - hi) + lo)"
    if "is_f32 (a - a1)" "is_f32 (a1 - a2)" "is_f32 ((a - a1) / (a1 - a2))"
       "is_f32 (lo - hi)" "is_f32 ((a - a1) / (a1 - a2) * (lo - hi))"
       "is_f32 ((a - a1) / (a1 - a2) * (lo - hi) + lo)" for a
    using ne that by (simp add: clamp_unfold fsub_Fin rnd32_is_f32_eq)
  from one two three four show ?thesis by blast
qed

theorem clamp_endpoints_witness:
  "is_f32 0 \<and> is_f32 7 \<and> is_f32 (- 5 / 2) \<and> is_f32 1 \<and> (0::real) \<noteq> 7
   \<and> rnd32 (0 - 7) = Fin (- 7) \<and> rnd32 (- 5 / 2 - 1) = Fin (- 7 / 2) \<and> is_f32 (1 - (- 5 / 2))
   \<and> clamp (Fin 0) (Fin 0) (Fin 7) (Fin (- 5 / 2)) (Fin 1) = Fin (- 5 / 2)
   \<and> clamp (Fin 7) (Fin 0) (Fin 7) (Fin (- 5 / 2)) (Fin 1) = Fin 1
   \<and> is_f32 (2 ^ 127) \<and> (2 ^ 127 :: real) \<noteq> 0 \<and> rnd32 (2 ^ 127 - 0) = Fin (2 ^ 127)
   \<and> clamp (Fin (2 ^ 127)) (Fin (2 ^ 127)) (Fin 0) (Fin (- 5 / 2)) (Fin 1) = Fin (- 5 / 2)
   \<and> clamp (Fin 0) (Fin (2 ^ 127)) (Fin 0) (Fin (- 5 / 2)) (Fin 1) = Fin 1"
proof -
  have h: "is_f32 0" "is_f32 7" "is_f32 (- 5 / 2)" "is_f32 1" "is_f32 (1 - (- 5 / 2))"
    "is_f32 (2 ^ 127)"
    by (simp_all add: is_f32_def rnd32_eval)
  have n: "(0::real) \<noteq> 7" "(2 ^ 127 :: real) \<noteq> 0" by simp_all
  have r: "rnd32 (0 - 7) = Fin (- 7)" "rnd32 (- 5 / 2 - 1) = Fin (- 7 / 2)"
    "rnd32 (2 ^ 127 - 0) = Fin (2 ^ 127)"
    by (simp_all add: rnd32_eval)
  from clamp_endpoints[OF h(1-4) n(1) r(1,2)] h(5)
  have small: "clamp (Fin 0) (Fin 0) (Fin 7) (Fin (- 5 / 2)) (Fin 1) = Fin (- 5 / 2)"
    "clamp (Fin 7) (Fin 0) (Fin 7) (Fin (- 5 / 2)) (Fin 1) = Fin 1" by blast+
  from clamp_endpoints[OF h(6,1,3,4) n(2) r(3,2)] h(5)
  have big: "clamp (Fin (2 ^ 127)) (Fin (2 ^ 127)) (Fin 0) (Fin (- 5 / 2)) (Fin 1) = Fin (- 5 / 2)"
    "clamp (Fin 0) (Fin (2 ^ 127)) (Fin 0) (Fin (- 5 / 2)) (Fin 1) = Fin 1" by blast+
  from h n r small big show ?thesis by blast
qed

text \<open>
  C3, as the claim states it, fails. The cast to \<^verbatim>\<open>std::uint8_t\<close> truncates, so at the
  greatest binary32 number below \<open>0.75\<close> the red channel is 254, not 255, and at the
  greatest one below \<open>0.25\<close> the green channel is 254, not 255.
\<close>

theorem heat_lut_below_three_quarters:
  "is_f32 (3/4 - 1/2^24) \<and> heat_lut (Fin (3/4 - 1/2^24)) = Inr (rgba 254 255 0 255)
   \<and> is_f32 (1/4 - 1/2^26) \<and> heat_lut (Fin (1/4 - 1/2^26)) = Inr (rgba 0 254 255 255)"
  by (simp add: is_f32_def f32_eval)

text \<open>
  C3, amended. \<^verbatim>\<open>heat_lut\<close> returns \<open>(0,0,255,255)\<close> at 0, \<open>(0,255,255,255)\<close> at 0.25,
  \<open>(0,255,0,255)\<close> at 0.5 and \<open>(0,255,0,255)\<close> at 0.75. At the greatest binary32 number
  below each join it returns \<open>(0,254,255,255)\<close> below 0.25, \<open>(0,255,0,255)\<close> below 0.5 and
  \<open>(254,255,0,255)\<close> below 0.75: the colour steps by one level at 0.25, does not change
  at 0.5, and drops from red 254 to red 0 at 0.75. Alpha is 255 in every band.
\<close>

theorem heat_lut_band_joins:
  "heat_lut (Fin 0) = Inr (rgba 0 0 255 255)
   \<and> heat_lut (Fin (1/4)) = Inr (rgba 0 255 255 255)
   \<and> heat_lut (Fin (1/2)) = Inr (rgba 0 255 0 255)
   \<and> heat_lut (Fin (3/4)) = Inr (rgba 0 255 0 255)
   \<and> is_f32 (1/4 - 1/2^26) \<and> (\<forall>q. is_f32 q \<and> q < 1/4 \<longrightarrow> q \<le> 1/4 - 1/2^26)
   \<and> heat_lut (Fin (1/4 - 1/2^26)) = Inr (rgba 0 254 255 255)
   \<and> is_f32 (1/2 - 1/2^25) \<and> (\<forall>q. is_f32 q \<and> q < 1/2 \<longrightarrow> q \<le> 1/2 - 1/2^25)
   \<and> heat_lut (Fin (1/2 - 1/2^25)) = Inr (rgba 0 255 0 255)
   \<and> is_f32 (3/4 - 1/2^24) \<and> (\<forall>q. is_f32 q \<and> q < 3/4 \<longrightarrow> q \<le> 3/4 - 1/2^24)
   \<and> heat_lut (Fin (3/4 - 1/2^24)) = Inr (rgba 254 255 0 255)
   \<and> (\<forall>x c. heat_lut x = Inr c \<longrightarrow> a_chan c = 255)"
proof -
  have v: "heat_lut (Fin 0) = Inr (rgba 0 0 255 255)"
    "heat_lut (Fin (1/4)) = Inr (rgba 0 255 255 255)"
    "heat_lut (Fin (1/2)) = Inr (rgba 0 255 0 255)"
    "heat_lut (Fin (3/4)) = Inr (rgba 0 255 0 255)"
    by (simp_all add: f32_eval)
  have b: "heat_lut (Fin (1/4 - 1/2^26)) = Inr (rgba 0 254 255 255)"
    "heat_lut (Fin (1/2 - 1/2^25)) = Inr (rgba 0 255 0 255)"
    "heat_lut (Fin (3/4 - 1/2^24)) = Inr (rgba 254 255 0 255)"
    by (simp_all add: f32_eval)
  show ?thesis
    using v b below_quarter below_half below_three_quarters heat_lut_alpha by blast
qed

theorem heat_lut_band_joins_witness:
  "is_f32 (1/8) \<and> (1/8 :: real) < 1/4 \<and> (1/8 :: real) \<le> 1/4 - 1/2^26
   \<and> heat_lut (Fin 0) = Inr (rgba 0 0 255 255) \<and> a_chan (rgba 0 0 255 255) = 255"
proof -
  have "is_f32 (1/8)" by (simp add: is_f32_def rnd32_eval)
  moreover have "(1/8 :: real) < 1/4" by simp
  ultimately have "(1/8 :: real) \<le> 1/4 - 1/2^26" using heat_lut_band_joins by blast
  moreover have "heat_lut (Fin 0) = Inr (rgba 0 0 255 255)" using heat_lut_band_joins by blast
  moreover have "a_chan (rgba 0 0 255 255) = 255" using heat_lut_band_joins by blast
  ultimately show ?thesis using \<open>is_f32 (1/8)\<close> by simp
qed

text \<open>
  C4. Two calls of \<^verbatim>\<open>render\<close> that agree on the host buffer, the width, the height and the
  stride, and that meet the same behaviour of the runtime, have the same outcome whatever
  their \<^verbatim>\<open>n_iterations\<close> arguments are: the argument is never read.
\<close>

theorem render_ignores_n_iterations:
  "render hostBuffer width height stride n1 env = render hostBuffer width height stride n2 env"
  by (simp add: render_def)

text \<open>
  C5, as the claim states it, fails. For \<open>i = 1\<close> the quotient \<^verbatim>\<open>255 * i / n\<close> is the \<^verbatim>\<open>int\<close> 2,
  and the value passed to \<^verbatim>\<open>heat_lut\<close> is \<open>2/255\<close> rounded to binary32, which is neither
  \<open>1/100\<close> nor the binary32 number nearest to \<open>1/100\<close>.
\<close>

theorem normalized_one_is_not_a_hundredth:
  "normalized 1 = Fin (8421505 / 1073741824) \<and> normalized 1 \<noteq> Fin (1 / 100)
   \<and> normalized 1 \<noteq> rnd32 (1 / 100)"
  by (simp add: f32_eval)

text \<open>
  C5, amended. For every count \<open>i\<close> in \<open>[0, 100]\<close> the value passed to \<^verbatim>\<open>heat_lut\<close> is the
  integer quotient \<open>255 * i div 100\<close> divided by 255 and rounded once to binary32; it
  is the binary32 number nearest to \<open>i/100\<close> exactly when \<open>i\<close> is a multiple of 20.
\<close>

theorem normalized_is_truncated_level:
  assumes "0 \<le> i" "i \<le> 100"
  shows "normalized i = rnd32 (real_of_int (255 * i div 100) / 255)
       \<and> (normalized i = rnd32 (real_of_int i / 100)) = (i mod 20 = 0)"
  using normalized_eq[OF assms] bspec[OF level_exact_iff[unfolded list_all_iff] count_cases[OF assms]]
  by simp

theorem normalized_is_truncated_level_witness:
  "(0::int) \<le> 1 \<and> (1::int) \<le> 100 \<and> normalized 1 = rnd32 (2 / 255)
   \<and> normalized 1 \<noteq> rnd32 (1 / 100)"
  using normalized_is_truncated_level[of 1] by auto

text \<open>
  C6. Whatever the pixel, the value the kernel passes to \<^verbatim>\<open>heat_lut\<close> lies between 0 and 1,
  so the assertion of \<^verbatim>\<open>heat_lut\<close> holds and the call returns a colour.
\<close>

theorem heat_lut_precondition_holds:
  "fle (Fin 0) (normalized (escape_count x y width height))
   \<and> fle (normalized (escape_count x y width height)) (Fin 1)
   \<and> (\<exists>color. pixel_color x y width height = Inr color)"
proof -
  have "\<not> isl (heat_lut (normalized (escape_count x y width height)))"
    using normalized_in_range escape_count_bounds by blast
  then have "\<exists>color. pixel_color x y width height = Inr color"
    unfolding pixel_color_def by (cases "heat_lut (normalized (escape_count x y width height))") auto
  then show ?thesis using normalized_in_range escape_count_bounds by blast
qed

text \<open>
  C7 fails for a width above \<open>2\<^sup>2\<^sup>4\<close>. The conversion \<^verbatim>\<open>(float)width\<close> rounds 16777217 to
  16777216, so the grid has 524288 columns of blocks where \<open>\<lceil>16777217 / 32\<rceil>\<close> is 524289.
\<close>

theorem grid_dim_misses_a_column:
  "grid_dim 16777217 = 524288 \<and> \<lceil>(16777217::real) / 32\<rceil> = 524289"
  by (simp add: grid_dim_def fceil_def int_of_float_def f32_eval)

text \<open>
  C8. A thread whose coordinates are outside the image returns the buffer unchanged. A
  thread inside the image returns a buffer whose four bytes from offset
  \<open>y * pitch + 4 * x\<close> on are the red, green, blue and alpha channels of the colour of
  pixel \<open>(x, y)\<close>, and whose other bytes are those of the buffer it was given. When the
  pitch is at least the row length and the launch does not overflow \<^verbatim>\<open>int\<close> coordinates,
  the pixel slots of two different threads inside the image do not overlap.
\<close>

theorem kernel_thread_writes_own_pixel:
  assumes t: "in_launch gd bd bi ti" and t': "in_launch gd bd bi' ti'"
    and gx: "unat (dim_x bd) * unat (dim_x gd) \<le> 2 ^ 31"
    and gy: "unat (dim_y bd) * unat (dim_y gd) \<le> 2 ^ 31"
    and p: "4 * width \<le> int pitch"
    and x: "x = thread_coord (dim_x bd) (dim_x bi) (dim_x ti)"
    and y: "y = thread_coord (dim_y bd) (dim_y bi) (dim_y ti)"
    and x': "x' = thread_coord (dim_x bd) (dim_x bi') (dim_x ti')"
    and y': "y' = thread_coord (dim_y bd) (dim_y bi') (dim_y ti')"
  shows "(width \<le> x \<or> height \<le> y \<longrightarrow> mykernel buffer width height pitch bd bi ti = Inr buffer)
       \<and> (x < width \<and> y < height \<longrightarrow>
            (\<exists>color buffer'. pixel_color x y width height = Inr color
               \<and> mykernel buffer width height pitch bd bi ti = Inr buffer'
               \<and> buffer' (y * int pitch + 4 * x) = r_chan color
               \<and> buffer' (y * int pitch + 4 * x + 1) = g_chan color
               \<and> buffer' (y * int pitch + 4 * x + 2) = b_chan color
               \<and> buffer' (y * int pitch + 4 * x + 3) = a_chan color
               \<and> (\<forall>a. a < y * int pitch + 4 * x \<or> y * int pitch + 4 * x + 3 < a \<longrightarrow>
                      buffer' a = buffer a)))
       \<and> (x < width \<and> y < height \<and> x' < width \<and> y' < height \<and> (bi \<noteq> bi' \<or> ti \<noteq> ti') \<longrightarrow>
            y' * int pitch + 4 * x' + 3 < y * int pitch + 4 * x
            \<or> y * int pitch + 4 * x + 3 < y' * int pitch + 4 * x')"
proof -
  have k: "mykernel buffer width height pitch bd bi ti = kernel_body buffer width height pitch x y"
    by (simp add: mykernel_def Let_def x y)
  have nx: "unat (dim_x bd) * unat (dim_x bi) + unat (dim_x ti) < 2 ^ 31"
    and ny: "unat (dim_y bd) * unat (dim_y bi) + unat (dim_y ti) < 2 ^ 31"
    and nx': "unat (dim_x bd) * unat (dim_x bi') + unat (dim_x ti') < 2 ^ 31"
    and ny': "unat (dim_y bd) * unat (dim_y bi') + unat (dim_y ti') < 2 ^ 31"
    using t t' unfolding in_launch_def
    by (blast intro: thread_coord_in_launch[OF _ _ gx] thread_coord_in_launch[OF _ _ gy])+
  have pos: "0 \<le> x" "0 \<le> y" "0 \<le> x'" "0 \<le> y'"
    unfolding x y x' y' thread_coord_nowrap[OF nx] thread_coord_nowrap[OF ny]
      thread_coord_nowrap[OF nx'] thread_coord_nowrap[OF ny'] by simp_all
  have distinct: "x \<noteq> x' \<or> y \<noteq> y'" if d: "bi \<noteq> bi' \<or> ti \<noteq> ti'"
  proof (rule ccontr)
    assume "\<not> (x \<noteq> x' \<or> y \<noteq> y')"
    then have ex: "x = x'" and ey: "y = y'" by simp_all
    have "dim_x bi = dim_x bi' \<and> dim_x ti = dim_x ti'"
      using t t' ex unfolding in_launch_def x x' by (intro thread_coord_inj[OF nx nx']) simp_all
    moreover have "dim_y bi = dim_y bi' \<and> dim_y ti = dim_y ti'"
      using t t' ey unfolding in_launch_def y y' by (intro thread_coord_inj[OF ny ny']) simp_all
    ultimately have "bi = bi' \<and> ti = ti'" by simp
    with d show False by simp
  qed
  have one: "width \<le> x \<or> height \<le> y \<longrightarrow> mykernel buffer width height pitch bd bi ti = Inr buffer"
    unfolding k by (simp add: kernel_body_outside)
  have two: "x < width \<and> y < height \<longrightarrow>
            (\<exists>color buffer'. pixel_color x y width height = Inr color
               \<and> mykernel buffer width height pitch bd bi ti = Inr buffer'
               \<and> buffer' (y * int pitch + 4 * x) = r_chan color
               \<and> buffer' (y * int pitch + 4 * x + 1) = g_chan color
               \<and> buffer' (y * int pitch + 4 * x + 2) = b_chan color
               \<and> buffer' (y * int pitch + 4 * x + 3) = a_chan color
               \<and> (\<forall>a. a < y * int pitch + 4 * x \<or> y * int pitch + 4 * x + 3 < a \<longrightarrow>
                      buffer' a = buffer a))"
    unfolding k using kernel_body_stores by blast
  have four: "x < width \<and> y < height \<and> x' < width \<and> y' < height \<and> (bi \<noteq> bi' \<or> ti \<noteq> ti') \<longrightarrow>
            y' * int pitch + 4 * x' + 3 < y * int pitch + 4 * x
            \<or> y * int pitch + 4 * x + 3 < y' * int pitch + 4 * x'"
    using pixel_slots_disjoint[OF pos(1) _ pos(2) pos(3) _ pos(4) p] distinct by blast
  from one two four show ?thesis by (intro conjI)
qed

theorem kernel_thread_writes_own_pixel_witness:
  "in_launch \<lparr>dim_x = 1, dim_y = 1\<rparr> \<lparr>dim_x = 32, dim_y = 32\<rparr> \<lparr>dim_x = 0, dim_y = 0\<rparr> \<lparr>dim_x = 0, dim_y = 0\<rparr>
   \<and> in_launch \<lparr>dim_x = 1, dim_y = 1\<rparr> \<lparr>dim_x = 32, dim_y = 32\<rparr> \<lparr>dim_x = 0, dim_y = 0\<rparr> \<lparr>dim_x = 1, dim_y = 0\<rparr>
   \<and> unat (32 :: 32 word) * unat (1 :: 32 word) \<le> 2 ^ 31
   \<and> (4::int) * 4 \<le> int 16
   \<and> thread_coord 32 0 0 = 0 \<and> thread_coord 32 0 1 = 1
   \<and> (\<exists>buffer'. mykernel (\<lambda>a. 205) 4 2 16 \<lparr>dim_x = 32, dim_y = 32\<rparr> \<lparr>dim_x = 0, dim_y = 0\<rparr> \<lparr>dim_x = 0, dim_y = 0\<rparr>
                = Inr buffer'
         \<and> buffer' 0 = 0 \<and> buffer' 1 = 8 \<and> buffer' 2 = 255 \<and> buffer' 3 = 255
         \<and> buffer' (- 1) = 205 \<and> buffer' 4 = 205)
   \<and> mykernel (\<lambda>a. 205) 4 2 16 \<lparr>dim_x = 32, dim_y = 32\<rparr> \<lparr>dim_x = 0, dim_y = 0\<rparr> \<lparr>dim_x = 4, dim_y = 0\<rparr>
                = Inr (\<lambda>a. 205)
   \<and> (0 * int 16 + 4 * 1 + 3 < 0 * int 16 + 4 * (0::int) \<or> 0 * int 16 + 4 * 0 + 3 < 0 * int 16 + 4 * (1::int))"
proof -
  let ?gd = "\<lparr>dim_x = 1, dim_y = 1\<rparr>" and ?bd = "\<lparr>dim_x = 32, dim_y = 32\<rparr>"
  let ?bi = "\<lparr>dim_x = 0, dim_y = 0\<rparr>" and ?t0 = "\<lparr>dim_x = 0, dim_y = 0\<rparr>"
    and ?t1 = "\<lparr>dim_x = 1, dim_y = 0\<rparr>" and ?t4 = "\<lparr>dim_x = 4, dim_y = 0\<rparr>"
  have t0: "in_launch ?gd ?bd ?bi ?t0" and t1: "in_launch ?gd ?bd ?bi ?t1"
    and t4: "in_launch ?gd ?bd ?bi ?t4"
    by (simp_all add: in_launch_def)
  have g: "unat (dim_x ?bd) * unat (dim_x ?gd) \<le> 2 ^ 31" "unat (dim_y ?bd) * unat (dim_y ?gd) \<le> 2 ^ 31"
    by simp_all
  have p: "(4::int) * 4 \<le> int 16" by simp
  have c: "thread_coord 32 0 0 = 0" "thread_coord 32 0 1 = 1" "thread_coord 32 0 4 = 4"
    by (simp_all add: thread_coord_def)
  have x0: "(0::int) = thread_coord (dim_x ?bd) (dim_x ?bi) (dim_x ?t0)"
    and y0: "(0::int) = thread_coord (dim_y ?bd) (dim_y ?bi) (dim_y ?t0)"
    and x1: "(1::int) = thread_coord (dim_x ?bd) (dim_x ?bi) (dim_x ?t1)"
    and y1: "(0::int) = thread_coord (dim_y ?bd) (dim_y ?bi) (dim_y ?t1)"
    and x4: "(4::int) = thread_coord (dim_x ?bd) (dim_x ?bi) (dim_x ?t4)"
    and y4: "(0::int) = thread_coord (dim_y ?bd) (dim_y ?bi) (dim_y ?t4)"
    by (simp_all add: c)
  note w = kernel_thread_writes_own_pixel[OF t0 t1 g p x0 y0 x1 y1, of 2 "\<lambda>a. 205"]
  note v = kernel_thread_writes_own_pixel[OF t4 t1 g p x4 y4 x1 y1, of 2 "\<lambda>a. 205"]
  from w obtain color b where b: "pixel_color 0 0 4 2 = Inr color"
      "mykernel (\<lambda>a. 205) 4 2 16 ?bd ?bi ?t0 = Inr b"
      "b 0 = r_chan color" "b 1 = g_chan color" "b 2 = b_chan color" "b 3 = a_chan color"
      "\<forall>a. a < 0 \<or> 3 < a \<longrightarrow> b a = 205"
    by auto
  have col: "color = rgba 0 8 255 255" using b(1) by (simp add: pixel_color_0_0_4_2)
  have "b 0 = 0" "b 1 = 8" "b 2 = 255" "b 3 = 255" "b (- 1) = 205" "b 4 = 205"
    using b(3-7) by (simp_all add: col rgba_def)
  with b(2) have inside: "\<exists>buffer'. mykernel (\<lambda>a. 205) 4 2 16 ?bd ?bi ?t0 = Inr buffer'
         \<and> buffer' 0 = 0 \<and> buffer' 1 = 8 \<and> buffer' 2 = 255 \<and> buffer' 3 = 255
         \<and> buffer' (- 1) = 205 \<and> buffer' 4 = 205" by blast
  have outside: "mykernel (\<lambda>a. 205) 4 2 16 ?bd ?bi ?t4 = Inr (\<lambda>a. 205)"
    using v by simp
  have "0 * int 16 + 4 * 1 + 3 < 0 * int 16 + 4 * (0::int) \<or> 0 * int 16 + 4 * 0 + 3 < 0 * int 16 + 4 * (1::int)"
    by simp
  with inside outside show ?thesis using t0 t1 c by simp
qed

text \<open>
  C9 fails for a width above \<open>2\<^sup>2\<^sup>4\<close>. With a width of 16777217, a height of 1 and every
  runtime call succeeding, \<^verbatim>\<open>render\<close> returns, and the four bytes of the last pixel of the
  host buffer are the bytes the allocation held (here 205 each), not the channels
  \<open>(0, 20, 255, 255)\<close> of that pixel's colour: the image returned is partial.
\<close>

theorem render_returns_a_partial_image:
  "\<exists>hostBuffer'.
      render (\<lambda>a. 0) 16777217 1 67108868 100
        \<lparr>malloc_rc = 0, malloc_pitch = 67108868, malloc_mem = (\<lambda>a. 205), launch_rc = 0,
         memcpy_rc = 0, free_rc = 0\<rparr> = Returned hostBuffer'
    \<and> pixel_color 16777216 0 16777217 1 = Inr (rgba 0 20 255 255)
    \<and> hostBuffer' 67108864 = 205 \<and> hostBuffer' 67108865 = 205
    \<and> hostBuffer' 67108866 = 205 \<and> hostBuffer' 67108867 = 205"
proof -
  let ?env = "\<lparr>malloc_rc = 0, malloc_pitch = 67108868, malloc_mem = (\<lambda>a. 205), launch_rc = 0,
         memcpy_rc = 0, free_rc = 0\<rparr>"
  let ?launch = "launch \<lparr>dim_x = word_of_int (grid_dim 16777217), dim_y = word_of_int (grid_dim 1)\<rparr>
                  \<lparr>dim_x = 32, dim_y = 32\<rparr>
                  (\<lambda>bd bi ti m. mykernel m 16777217 1 67108868 bd bi ti) (\<lambda>a. 205)"
  from launch_returns obtain dev where dev: "?launch = Inr dev" by blast
  let ?hb = "cudaMemcpy2D (\<lambda>a. 0) 67108868 dev 67108868 67108868 1"
  have w: "unat (size_t_of_int 16777217 * 4) = 67108868"
    using row_bytes_of_width[of 16777217] by simp
  have h: "unat (size_t_of_int 1) = 1" using rows_of_height[of 1] by simp
  have ret: "render (\<lambda>a. 0) 16777217 1 67108868 100 ?env = Returned ?hb"
    by (simp add: render_def Let_def dev w h)
  have p: "4 * 16777217 \<le> int 67108868" by simp
  have missed: "dev (4 * 16777216 + int j) = 205" if "j < 4" for j
    using launch_misses_last_column[OF p that dev] by simp
  have copied: "?hb (int 0 * 67108868 + int c) = dev (int 0 * 67108868 + int c)"
    if "c < 67108868" for c
    using that by (intro cudaMemcpy2D_rows) simp_all
  have "?hb (int (67108864 + j)) = 205" if "j < 4" for j
    using copied[of "67108864 + j"] missed[OF that] that by simp
  from this[of 0] this[of 1] this[of 2] this[of 3]
  have "?hb 67108864 = 205" "?hb 67108865 = 205" "?hb 67108866 = 205" "?hb 67108867 = 205"
    by simp_all
  with ret pixel_color_last_column show ?thesis by blast
qed

text \<open>
  C10. A pixel whose loop reaches the cap \<open>i = 100\<close> gets the normalised value 1 and the
  colour \<open>(0, 0, 0, 255)\<close> of the fourth band, and after the kernel the four bytes of the
  pixel's slot are 0, 0, 0 and 255.
\<close>

theorem capped_pixel_is_black:
  assumes "x < width" "y < height" "escape_count x y width height = 100"
  shows "normalized (escape_count x y width height) = Fin 1
       \<and> pixel_color x y width height = Inr (rgba 0 0 0 255)
       \<and> kernel_body buffer width height pitch x y =
           Inr (store_pixel buffer (y * int pitch + 4 * x) (rgba 0 0 0 255))
       \<and> (\<exists>buffer'. kernel_body buffer width height pitch x y = Inr buffer'
            \<and> buffer' (y * int pitch + 4 * x) = 0
            \<and> buffer' (y * int pitch + 4 * x + 1) = 0
            \<and> buffer' (y * int pitch + 4 * x + 2) = 0
            \<and> buffer' (y * int pitch + 4 * x + 3) = 255)"
proof -
  have n: "normalized (escape_count x y width height) = Fin 1"
    using assms(3) by (simp add: normalized_100)
  have c: "pixel_color x y width height = Inr (rgba 0 0 0 255)"
    unfolding pixel_color_def n by (rule heat_lut_one)
  let ?b = "store_pixel buffer (y * int pitch + 4 * x) (rgba 0 0 0 255)"
  have k: "kernel_body buffer width height pitch x y = Inr ?b"
    using assms(1,2) by (simp add: kernel_body_def c Let_def)
  have b: "?b (y * int pitch + 4 * x) = 0" "?b (y * int pitch + 4 * x + 1) = 0"
    "?b (y * int pitch + 4 * x + 2) = 0" "?b (y * int pitch + 4 * x + 3) = 255"
    by (simp_all add: store_pixel_bytes rgba_def)
  have "\<exists>buffer'. kernel_body buffer width height pitch x y = Inr buffer'
            \<and> buffer' (y * int pitch + 4 * x) = 0
            \<and> buffer' (y * int pitch + 4 * x + 1) = 0
            \<and> buffer' (y * int pitch + 4 * x + 2) = 0
            \<and> buffer' (y * int pitch + 4 * x + 3) = 255"
    by (intro exI[of _ ?b] conjI k b)
  with n c k show ?thesis by (intro conjI)
qed

theorem capped_pixel_is_black_witness:
  "(5::int) < 7 \<and> (1::int) < 2 \<and> escape_count 5 1 7 2 = 100
   \<and> normalized (escape_count 5 1 7 2) = Fin 1
   \<and> pixel_color 5 1 7 2 = Inr (rgba 0 0 0 255)
   \<and> (\<exists>buffer'. kernel_body (\<lambda>a. 205) 7 2 32 5 1 = Inr buffer'
        \<and> buffer' 52 = 0 \<and> buffer' 53 = 0 \<and> buffer' 54 = 0 \<and> buffer' 55 = 255)"
proof -
  have h: "(5::int) < 7" "(1::int) < 2" by simp_all
  note w = capped_pixel_is_black[OF h escape_count_5_1_7_2, of "\<lambda>a. 205" 32]
  from w obtain b where b: "kernel_body (\<lambda>a. 205) 7 2 32 5 1 = Inr b"
    "b 52 = 0" "b 53 = 0" "b 54 = 0" "b 55 = 255" by auto
  then have "\<exists>buffer'. kernel_body (\<lambda>a. 205) 7 2 32 5 1 = Inr buffer'
        \<and> buffer' 52 = 0 \<and> buffer' 53 = 0 \<and> buffer' 54 = 0 \<and> buffer' 55 = 255" by blast
  moreover have "normalized (escape_count 5 1 7 2) = Fin 1"
    "pixel_color 5 1 7 2 = Inr (rgba 0 0 0 255)" using w by simp_all
  ultimately show ?thesis using escape_count_5_1_7_2 by simp
qed

end
